theory Spec2Isabelle
  imports Main "HOL-Library.Sublist" "HOL-Library.Word"
begin

section \<open>The folder table of the migration (012\_add\_knowledge\_folders.sql)\<close>

text \<open>
  A row of \<^verbatim>\<open>archon_knowledge_folders\<close> is kept as the pair of its \<^verbatim>\<open>id\<close> and its
  nullable \<^verbatim>\<open>parent_id\<close> (\<open>None\<close> is SQL NULL); the other columns take no part in the
  helper routines. A row of \<^verbatim>\<open>archon_sources\<close> is the pair of its key and its nullable
  \<^verbatim>\<open>folder_id\<close>. A table is the list of its rows.
\<close>

type_synonym 'u folder_row = "'u \<times> 'u option"
type_synonym ('s, 'u) source_row = "'s \<times> 'u option"

text \<open>\<^verbatim>\<open>id UUID PRIMARY KEY\<close>: no two rows share an id.\<close>

definition primary_key :: "'u folder_row list \<Rightarrow> bool" where
  "primary_key t = distinct (map fst t)"

text \<open>\<^verbatim>\<open>CONSTRAINT archon_knowledge_folders_no_self_reference CHECK (parent_id IS DISTINCT FROM id)\<close>\<close>

definition no_self_reference :: "'u folder_row list \<Rightarrow> bool" where
  "no_self_reference t = list_all (\<lambda>r. snd r \<noteq> Some (fst r)) t"

text \<open>
  The scalar subquery \<^verbatim>\<open>(SELECT parent_id FROM archon_knowledge_folders WHERE id = x)\<close>:
  NULL when no row has that id, and NULL when the row's parent is NULL.
\<close>

definition select_parent_id :: "'u folder_row list \<Rightarrow> 'u \<Rightarrow> 'u option" where
  "select_parent_id t x = (case map_of t x of None \<Rightarrow> None | Some p \<Rightarrow> p)"

text \<open>
  The \<^verbatim>\<open>WHILE current_parent_id IS NOT NULL AND current_depth < max_depth\<close> loop of
  \<^verbatim>\<open>archon_is_folder_descendant\<close>, with \<^verbatim>\<open>max_depth\<close> passed along.
\<close>

function walk_loop :: "'u folder_row list \<Rightarrow> 'u \<Rightarrow> nat \<Rightarrow> 'u option \<Rightarrow> nat \<Rightarrow> bool" where
  "walk_loop t potential_ancestor_id max_depth current_parent_id current_depth =
     (case current_parent_id of
        None \<Rightarrow> False
      | Some c \<Rightarrow>
          if current_depth < max_depth then
            (if c = potential_ancestor_id then True
             else walk_loop t potential_ancestor_id max_depth
                    (select_parent_id t c) (current_depth + 1))
          else False)"
  by pat_completeness auto
termination
  by (relation "measure (\<lambda>(t, a, m, c, d). m - d)") auto

declare walk_loop.simps [simp del]

definition archon_is_folder_descendant ::
  "'u folder_row list \<Rightarrow> 'u option \<Rightarrow> 'u option \<Rightarrow> bool" where
  "archon_is_folder_descendant t target_folder_id potential_ancestor_id =
     (case (target_folder_id, potential_ancestor_id) of
        (Some target, Some ancestor) \<Rightarrow>
          if target = ancestor then True
          else walk_loop t ancestor 100 (select_parent_id t target) 0
      | _ \<Rightarrow> False)"

text \<open>
  The parent chain of a folder, read off the table: \<open>walk_up t n x\<close> is the folder reached
  from \<open>x\<close> after following \<^verbatim>\<open>parent_id\<close> \<open>n\<close> times (\<open>x\<close> itself for \<open>n = 0\<close>), and
  \<open>None\<close> once the chain has ended.
\<close>

fun walk_up :: "'u folder_row list \<Rightarrow> nat \<Rightarrow> 'u \<Rightarrow> 'u option" where
  "walk_up t 0 x = Some x"
| "walk_up t (Suc n) x =
     (case select_parent_id t x of None \<Rightarrow> None | Some p \<Rightarrow> walk_up t n p)"

text \<open>No folder lies on its own ancestor chain.\<close>

definition no_own_ancestor :: "'u folder_row list \<Rightarrow> bool" where
  "no_own_ancestor t = (\<forall>x n. walk_up t (Suc n) x \<noteq> Some x)"

text \<open>
  Modelled from the spec: the server routine that re-parents a folder is not part of the
  migration; the spec says that the invariant is enforced by the check constraint and by
  an application-level ancestor walk, and that moving a folder to one of its own
  descendants is rejected. \<open>move_folder t f p\<close> is
  \<^verbatim>\<open>UPDATE archon_knowledge_folders SET parent_id = p WHERE id = f\<close>, refused (\<open>None\<close>) when
  the walk from the new parent finds \<open>f\<close> (which covers \<open>p = f\<close>, the check constraint).
\<close>

definition move_folder ::
  "'u folder_row list \<Rightarrow> 'u \<Rightarrow> 'u option \<Rightarrow> 'u folder_row list option" where
  "move_folder t f new_parent =
     (if archon_is_folder_descendant t new_parent (Some f) then None
      else Some (map (\<lambda>r. if fst r = f then (fst r, new_parent) else r) t))"

text \<open>
  An executable reading of "the parent pointers form a finite forest": from every row,
  following \<^verbatim>\<open>parent_id\<close> as many times as the table has rows runs off the top.
\<close>

definition chains_end :: "'u folder_row list \<Rightarrow> bool" where
  "chains_end t = list_all (\<lambda>r. walk_up t (length t) (fst r) = None) t"

text \<open>
  The foreign keys of the schema: \<^verbatim>\<open>parent_id UUID REFERENCES archon_knowledge_folders(id)\<close>
  and \<^verbatim>\<open>folder_id UUID REFERENCES archon_knowledge_folders(id)\<close> on \<^verbatim>\<open>archon_sources\<close>.
\<close>

definition parent_foreign_key :: "'u folder_row list \<Rightarrow> bool" where
  "parent_foreign_key t =
     list_all (\<lambda>r. case snd r of None \<Rightarrow> True | Some p \<Rightarrow> p \<in> set (map fst t)) t"

definition folder_foreign_key :: "'u folder_row list \<Rightarrow> ('s, 'u) source_row list \<Rightarrow> bool" where
  "folder_foreign_key t srcs =
     list_all (\<lambda>s. case snd s of None \<Rightarrow> True | Some g \<Rightarrow> g \<in> set (map fst t)) srcs"

text \<open>
  \<^verbatim>\<open>archon_count_folder_sources\<close>. The recursive common table expression
  \<^verbatim>\<open>folder_tree\<close> is evaluated the way PostgreSQL evaluates \<^verbatim>\<open>WITH RECURSIVE ... UNION ALL\<close>:
  the non-recursive term gives the first working table and the first part of the result;
  as long as the working table is not empty, the recursive term is evaluated with the
  working table in place of \<^verbatim>\<open>folder_tree\<close>, its rows are appended to the result and
  become the next working table. On a table with a cycle of parents below the target the
  working table never gets empty, so the loop is a partial function: \<open>None\<close> is
  "does not return".
\<close>

text \<open>\<^verbatim>\<open>SELECT id FROM archon_knowledge_folders WHERE id = target_folder_id\<close>\<close>

definition cte_base :: "'u folder_row list \<Rightarrow> 'u option \<Rightarrow> 'u list" where
  "cte_base t target_folder_id = map fst (filter (\<lambda>r. Some (fst r) = target_folder_id) t)"

text \<open>
  \<^verbatim>\<open>SELECT f.id FROM archon_knowledge_folders f INNER JOIN folder_tree ft ON f.parent_id = ft.id\<close>
\<close>

definition cte_step :: "'u folder_row list \<Rightarrow> 'u list \<Rightarrow> 'u list" where
  "cte_step t working =
     concat (map (\<lambda>f. map (\<lambda>ft. fst f) (filter (\<lambda>ft. snd f = Some ft) working)) t)"

partial_function (option) cte_loop ::
  "'u folder_row list \<Rightarrow> 'u list \<Rightarrow> 'u list \<Rightarrow> 'u list option" where
  "cte_loop t working result =
     (if working = [] then Some result
      else cte_loop t (cte_step t working) (result @ cte_step t working))"

declare cte_loop.simps [code]

definition folder_tree :: "'u folder_row list \<Rightarrow> 'u option \<Rightarrow> 'u list option" where
  "folder_tree t target_folder_id =
     cte_loop t (cte_base t target_folder_id) (cte_base t target_folder_id)"

text \<open>
  \<^verbatim>\<open>SELECT COUNT(*)::INTEGER FROM archon_sources s WHERE s.folder_id IN (SELECT id FROM folder_tree)\<close>.
  A NULL \<^verbatim>\<open>folder_id\<close> is never \<^verbatim>\<open>IN\<close> the set. The count is kept as a mathematical
  integer: the cast to \<^verbatim>\<open>INTEGER\<close> changes no count below \<open>2\<^sup>3\<^sup>1\<close>.
\<close>

definition archon_count_folder_sources ::
  "'u folder_row list \<Rightarrow> ('s, 'u) source_row list \<Rightarrow> 'u option \<Rightarrow> int option" where
  "archon_count_folder_sources t srcs target_folder_id =
     (case folder_tree t target_folder_id of
        None \<Rightarrow> None
      | Some ids \<Rightarrow>
          Some (int (length (filter
            (\<lambda>s. case snd s of None \<Rightarrow> False | Some g \<Rightarrow> g \<in> set ids) srcs))))"

text \<open>
  What the count is meant to be: the sources whose folder is the target itself or has the
  target on its parent chain.
\<close>

definition in_subtree :: "'u folder_row list \<Rightarrow> 'u \<Rightarrow> 'u \<Rightarrow> bool" where
  "in_subtree t f g = (\<exists>n. walk_up t n g = Some f)"

definition sources_in_subtree ::
  "'u folder_row list \<Rightarrow> ('s, 'u) source_row list \<Rightarrow> 'u \<Rightarrow> ('s, 'u) source_row list" where
  "sources_in_subtree t srcs f =
     filter (\<lambda>s. case snd s of None \<Rightarrow> False | Some g \<Rightarrow> in_subtree t f g) srcs"

text \<open>A chain of 102 folders: folder \<open>i\<close> has parent \<open>i + 1\<close>, folder 101 is a root.\<close>

definition deep_chain :: "nat folder_row list" where
  "deep_chain = map (\<lambda>i. (i, if i < 101 then Some (Suc i) else None)) [0..<102]"

section \<open>Client types (types/folders.ts)\<close>

text \<open>
  A value of type \<^verbatim>\<open>T | null | undefined\<close>. Strict equality \<^verbatim>\<open>===\<close> on such values is
  equality of the datatype: \<^verbatim>\<open>undefined\<close> and \<^verbatim>\<open>null\<close> differ.
\<close>

datatype 'a nullable = Undefined | Null | Value 'a

text \<open>JavaScript truthiness of a string that may be missing: the empty string is falsy.\<close>

fun truthy :: "string nullable \<Rightarrow> bool" where
  "truthy Undefined = False"
| "truthy Null = False"
| "truthy (Value s) = (s \<noteq> [])"

text \<open>\<^verbatim>\<open>x || null\<close>\<close>

definition or_null :: "string nullable \<Rightarrow> string nullable" where
  "or_null x = (if truthy x then x else Null)"

text \<open>A JavaScript value; an object is the list of its properties.\<close>

datatype js_value =
    JUndefined | JNull | JBoolean bool | JNumber int | JString string
  | JObject "(string \<times> js_value) list"

text \<open>\<^verbatim>\<open>FolderMetadata\<close> is a free-form object.\<close>

type_synonym FolderMetadata = "(string \<times> js_value) list"

record FolderBase =
  name :: string
  description :: "string nullable"
  color :: "string nullable"
  icon :: "string nullable"
  position :: int
  metadata :: FolderMetadata

record FolderCreate = FolderBase +
  parent_id :: "string nullable"

text \<open>
  \<^verbatim>\<open>Folder\<close> has the fields of \<^verbatim>\<open>FolderBase\<close>, the same optional \<^verbatim>\<open>parent_id\<close> as
  \<^verbatim>\<open>FolderCreate\<close>, and its own. The field \<^verbatim>\<open>id\<close> is written \<open>id'\<close>.
\<close>

record Folder = FolderCreate +
  id' :: string
  created_at :: string
  updated_at :: string
  source_count :: int
  subfolder_count :: int
  total_sources :: int

record SourceInFolder =
  source_node_id :: string
  source_id :: string
  title :: "string nullable"
  source_url :: "string nullable"
  source_display_name :: "string nullable"
  folder_id :: "string nullable"
  source_created_at :: string
  knowledge_type :: "string nullable"
  tags :: "string list"

text \<open>
  \<^verbatim>\<open>TreeNode = FolderTreeNode | SourceInFolder\<close>; the constructor is the \<^verbatim>\<open>node_type\<close>
  tag, and a folder node carries its \<^verbatim>\<open>children\<close>.
\<close>

datatype TreeNode = FolderNode Folder "TreeNode list" | SourceNode SourceInFolder

record FolderTreeResponse =
  tree :: "TreeNode list"
  total_folders :: int
  tree_total_sources :: "int option"

record FolderListResponse =
  folders :: "Folder list"
  total :: int

datatype item_type = folder_item | source_item

record DragItemData =
  drag_type :: item_type
  drag_id :: string
  drag_name :: "string option"
  drag_folder_id :: "string nullable"

datatype zone_type = folder_zone | root_zone

record DropZoneData =
  drop_type :: zone_type
  drop_folder_id :: "string nullable"

record DragState =
  isDragging :: bool
  draggedItem :: "DragItemData option"
  draggedItems :: "DragItemData list"
  dropTarget :: "DropZoneData option"
  isValidDrop :: bool

section \<open>Tree helpers of the folder service\<close>

text \<open>
  \<^verbatim>\<open>findParentPath\<close> inside \<^verbatim>\<open>wouldCreateCircularReference\<close>: the \<^verbatim>\<open>for\<close> loop over the
  nodes returns at the first folder with the wanted id, or at the first folder whose
  children give a path (an array is truthy, also when empty).
\<close>

fun findParentPath :: "string \<Rightarrow> TreeNode list \<Rightarrow> string list \<Rightarrow> string list option" where
  "findParentPath nodeId [] path = None"
| "findParentPath nodeId (SourceNode s # rest) path = findParentPath nodeId rest path"
| "findParentPath nodeId (FolderNode f children # rest) path =
     (if id' f = nodeId then Some path
      else (case findParentPath nodeId children (path @ [id' f]) of
              Some childResult \<Rightarrow> Some childResult
            | None \<Rightarrow> findParentPath nodeId rest path))"

definition wouldCreateCircularReference ::
  "string \<Rightarrow> string nullable \<Rightarrow> FolderTreeResponse \<Rightarrow> bool" where
  "wouldCreateCircularReference folderId targetParentId folderTree =
     (case targetParentId of
        Value target \<Rightarrow>
          if target = [] then False
          else if folderId = target then True
          else (case findParentPath target (tree folderTree) [] of
                  Some targetPath \<Rightarrow> folderId \<in> set targetPath
                | None \<Rightarrow> False)
      | _ \<Rightarrow> False)"

text \<open>\<^verbatim>\<open>findFolderInTree\<close>: the first folder with the id, in document order.\<close>

fun search :: "string \<Rightarrow> TreeNode list \<Rightarrow> Folder option" where
  "search folderId [] = None"
| "search folderId (SourceNode s # rest) = search folderId rest"
| "search folderId (FolderNode f children # rest) =
     (if id' f = folderId then Some f
      else (case search folderId children of
              Some result \<Rightarrow> Some result
            | None \<Rightarrow> search folderId rest))"

definition findFolderInTree :: "string \<Rightarrow> FolderTreeResponse \<Rightarrow> Folder option" where
  "findFolderInTree folderId folderTree = search folderId (tree folderTree)"

section \<open>Drag and drop (hooks/useDragAndDrop.ts)\<close>

definition validateDrop ::
  "DragItemData \<Rightarrow> DragItemData list \<Rightarrow> DropZoneData \<Rightarrow> FolderTreeResponse option \<Rightarrow> bool" where
  "validateDrop item items dropZone folderTree =
     (if drag_type item = folder_item \<and> drop_type dropZone = folder_zone
         \<and> Value (drag_id item) = drop_folder_id dropZone then False
      else if drag_type item = folder_item \<and> drop_type dropZone = folder_zone
         \<and> (case folderTree of
               None \<Rightarrow> False
             | Some ft \<Rightarrow> truthy (drop_folder_id dropZone)
                 \<and> wouldCreateCircularReference (drag_id item) (drop_folder_id dropZone) ft)
      then False
      else if drag_type item = source_item
         \<and> drag_folder_id item =
             (if drop_type dropZone = root_zone then Null else or_null (drop_folder_id dropZone))
      then False
      else if length items > 1 \<and> list_ex (\<lambda>i. drag_type i \<noteq> source_item) items then False
      else True)"

text \<open>
  The callbacks handed to the hook are optional and asynchronous. A callback is given as
  the function that tells whether its promise resolves (\<open>True\<close>) or rejects; what the
  hook does to the outside is the list of its effects.
\<close>

record move_callbacks =
  onMoveSource :: "(string \<Rightarrow> string nullable \<Rightarrow> bool) option"
  onMoveFolder :: "(string \<Rightarrow> string nullable \<Rightarrow> bool) option"
  onBatchMove :: "(string list \<Rightarrow> string nullable \<Rightarrow> bool) option"

datatype drop_effect =
    CallMoveFolder string "string nullable"
  | CallBatchMove "string list" "string nullable"
  | CallMoveSource string "string nullable"
  | ConsoleError

definition handleDragEnd :: DragState where
  "handleDragEnd = \<lparr>isDragging = False, draggedItem = None, draggedItems = [],
                     dropTarget = None, isValidDrop = False\<rparr>"

text \<open>\<^verbatim>\<open>await cb?.(a, b)\<close> inside \<^verbatim>\<open>try ... catch\<close>: no call when the callback is missing.\<close>

definition try_call :: "('a \<Rightarrow> string nullable \<Rightarrow> bool) option \<Rightarrow>
    ('a \<Rightarrow> string nullable \<Rightarrow> drop_effect) \<Rightarrow> 'a \<Rightarrow> string nullable \<Rightarrow> drop_effect list" where
  "try_call cb eff a b =
     (case cb of
        None \<Rightarrow> []
      | Some f \<Rightarrow> if f a b then [eff a b] else [eff a b, ConsoleError])"

definition handleDrop ::
  "move_callbacks \<Rightarrow> DragState \<Rightarrow> DropZoneData \<Rightarrow> DragState \<times> drop_effect list" where
  "handleDrop cbs dragState dropZone =
     (if \<not> isDragging dragState \<or> \<not> isValidDrop dragState \<or> draggedItem dragState = None
      then (dragState, [])
      else
        (case draggedItem dragState of
           None \<Rightarrow> (dragState, [])
         | Some item \<Rightarrow>
             let targetFolderId =
                   (if drop_type dropZone = root_zone then Null
                    else or_null (drop_folder_id dropZone));
                 effects =
                   (if drag_type item = folder_item then
                      try_call (onMoveFolder cbs) CallMoveFolder (drag_id item) targetFolderId
                    else if length (draggedItems dragState) > 1 then
                      try_call (onBatchMove cbs) CallBatchMove
                        (map drag_id (draggedItems dragState)) targetFolderId
                    else
                      try_call (onMoveSource cbs) CallMoveSource (drag_id item) targetFolderId)
             in (handleDragEnd, effects)))"

text \<open>Whether a list of effects holds a call of one of the move callbacks.\<close>

fun is_move_call :: "drop_effect \<Rightarrow> bool" where
  "is_move_call ConsoleError = False"
| "is_move_call _ = True"

section \<open>Reading a folder tree\<close>

text \<open>The ids of the folders of a tree, in document order.\<close>

fun folder_ids :: "TreeNode list \<Rightarrow> string list" where
  "folder_ids [] = []"
| "folder_ids (SourceNode s # rest) = folder_ids rest"
| "folder_ids (FolderNode f children # rest) = id' f # folder_ids children @ folder_ids rest"

text \<open>
  \<open>is_descendant_in T F nodes\<close>: some folder with id \<open>F\<close> has a folder with id \<open>T\<close>
  below it; put the other way round, \<open>F\<close> lies on the path from a root to \<open>T\<close>,
  above \<open>T\<close>.
\<close>

fun is_descendant_in :: "string \<Rightarrow> string \<Rightarrow> TreeNode list \<Rightarrow> bool" where
  "is_descendant_in T F [] = False"
| "is_descendant_in T F (SourceNode s # rest) = is_descendant_in T F rest"
| "is_descendant_in T F (FolderNode f children # rest) =
     ((id' f = F \<and> T \<in> set (folder_ids children))
      \<or> is_descendant_in T F children \<or> is_descendant_in T F rest)"

text \<open>The number of nodes of a tree, folders and sources.\<close>

fun count_nodes :: "TreeNode list \<Rightarrow> nat" where
  "count_nodes [] = 0"
| "count_nodes (SourceNode s # rest) = Suc (count_nodes rest)"
| "count_nodes (FolderNode f children # rest) = Suc (count_nodes children + count_nodes rest)"

text \<open>A folder with the given id and counts, for examples.\<close>

definition example_folder :: "string \<Rightarrow> int \<Rightarrow> int \<Rightarrow> int \<Rightarrow> Folder" where
  "example_folder i sources subfolders total_srcs =
     \<lparr>name = i, description = Null, color = Null, icon = Null, position = 0, metadata = [],
      parent_id = Null, id' = i, created_at = ''2025-01-01T00:00:00.000Z'',
      updated_at = ''2025-01-01T00:00:00.000Z'', source_count = sources,
      subfolder_count = subfolders, total_sources = total_srcs\<rparr>"

text \<open>An example tree, \<open>a > b > c\<close>, and a folder as dragged item and as drop zone.\<close>

definition nested_example :: FolderTreeResponse where
  "nested_example =
     \<lparr>tree = [FolderNode (example_folder ''a'' 0 1 0)
                [FolderNode (example_folder ''b'' 0 1 0)
                   [FolderNode (example_folder ''c'' 0 0 0) []]]],
      total_folders = 3, tree_total_sources = None\<rparr>"

definition folder_drag :: "string \<Rightarrow> DragItemData" where
  "folder_drag i =
     \<lparr>drag_type = folder_item, drag_id = i, drag_name = None, drag_folder_id = Undefined\<rparr>"

definition folder_drop :: "string \<Rightarrow> DropZoneData" where
  "folder_drop i = \<lparr>drop_type = folder_zone, drop_folder_id = Value i\<rparr>"

text \<open>Example drag states and callbacks: every callback present and succeeding.\<close>

definition all_callbacks :: move_callbacks where
  "all_callbacks = \<lparr>onMoveSource = Some (\<lambda>_ _. True), onMoveFolder = Some (\<lambda>_ _. True),
                     onBatchMove = Some (\<lambda>_ _. True)\<rparr>"

definition invalid_drag :: DragState where
  "invalid_drag = \<lparr>isDragging = True, draggedItem = Some (folder_drag ''a''),
                    draggedItems = [folder_drag ''a''], dropTarget = Some (folder_drop ''a''),
                    isValidDrop = False\<rparr>"

definition valid_drag :: DragState where
  "valid_drag = \<lparr>isDragging = True, draggedItem = Some (folder_drag ''a''),
                  draggedItems = [folder_drag ''a''], dropTarget = Some (folder_drop ''b''),
                  isValidDrop = True\<rparr>"

section \<open>The query cache and the folder mutation hooks\<close>

text \<open>
  Query keys are arrays; \<^verbatim>\<open>folderKeys\<close> builds them. A filter key matches every query
  whose key starts with it.
\<close>

datatype key_part = KString string | KParentId "string nullable"

type_synonym query_key = "key_part list"

definition folderKeys_all :: query_key where
  "folderKeys_all = [KString ''folders'']"

definition folderKeys_lists :: query_key where
  "folderKeys_lists = folderKeys_all @ [KString ''list'']"

definition folderKeys_list :: "string nullable \<Rightarrow> query_key" where
  "folderKeys_list parentId = folderKeys_lists @ [KParentId parentId]"

definition folderKeys_tree :: query_key where
  "folderKeys_tree = folderKeys_all @ [KString ''tree'']"

definition folderKeys_details :: query_key where
  "folderKeys_details = folderKeys_all @ [KString ''detail'']"

definition folderKeys_detail :: "string \<Rightarrow> query_key" where
  "folderKeys_detail i = folderKeys_details @ [KString i]"

definition matches_key :: "query_key \<Rightarrow> query_key \<Rightarrow> bool" where
  "matches_key filter_key k = prefix filter_key k"

text \<open>The tree update of \<^verbatim>\<open>useCreateFolder.onMutate\<close>.\<close>

fun addToParent :: "string nullable \<Rightarrow> TreeNode \<Rightarrow> TreeNode list \<Rightarrow> TreeNode list" where
  "addToParent parent treeNode nodes =
     map (\<lambda>node. case node of
            FolderNode f children \<Rightarrow>
              if Value (id' f) = parent then
                FolderNode (f\<lparr>subfolder_count := subfolder_count f + 1\<rparr>) (children @ [treeNode])
              else FolderNode f (addToParent parent treeNode children)
          | SourceNode s \<Rightarrow> node) nodes"

text \<open>The tree update of \<^verbatim>\<open>useDeleteFolder.onMutate\<close>.\<close>

fun removeFolder :: "string \<Rightarrow> TreeNode list \<Rightarrow> TreeNode list" where
  "removeFolder folderId nodes =
     map (\<lambda>node. case node of
            FolderNode f children \<Rightarrow> FolderNode f (removeFolder folderId children)
          | SourceNode s \<Rightarrow> node)
       (filter (\<lambda>node. \<not> (case node of FolderNode f children \<Rightarrow> id' f = folderId
                                       | SourceNode s \<Rightarrow> False)) nodes)"

declare addToParent.simps [simp del]
declare removeFolder.simps [simp del]

text \<open>
  What the hooks do to the \<^verbatim>\<open>QueryClient\<close>: the cached tree, the cached folder lists (one
  query per key, in the order of the cache; a query may hold no data yet), the cached
  folder details by folder id, and the calls made, in order. A cached folder detail is
  only ever merged by object spread, so it is kept as the map of its properties.
\<close>

type_synonym js_object = "string \<rightharpoonup> js_value"

datatype cache_event =
    CancelQueries query_key
  | SetQueryData query_key
  | InvalidateQueries query_key

record query_client =
  tree_data :: "FolderTreeResponse option"
  list_data :: "(query_key \<times> FolderListResponse option) list"
  detail_data :: "string \<Rightarrow> js_object option"
  events :: "cache_event list"

definition cancelQueries :: "query_key \<Rightarrow> query_client \<Rightarrow> query_client" where
  "cancelQueries filter_key qc = qc\<lparr>events := events qc @ [CancelQueries filter_key]\<rparr>"

text \<open>\<^verbatim>\<open>getQueriesData({ queryKey })\<close>: every list query under the filter key, with its data.\<close>

definition getQueriesData ::
  "query_key \<Rightarrow> query_client \<Rightarrow> (query_key \<times> FolderListResponse option) list" where
  "getQueriesData filter_key qc = filter (\<lambda>q. matches_key filter_key (fst q)) (list_data qc)"

text \<open>
  \<^verbatim>\<open>setQueryData(key, updater)\<close>: the updater gets the current data; when it returns
  \<^verbatim>\<open>undefined\<close> nothing is written. A plain value in place of the updater is the constant
  updater. Writing to a key that has no query yet creates the query.
\<close>

definition setTreeData ::
  "(FolderTreeResponse option \<Rightarrow> FolderTreeResponse option) \<Rightarrow> query_client \<Rightarrow> query_client" where
  "setTreeData updater qc =
     (let logged = qc\<lparr>events := events qc @ [SetQueryData folderKeys_tree]\<rparr>
      in case updater (tree_data qc) of
           None \<Rightarrow> logged
         | Some d \<Rightarrow> logged\<lparr>tree_data := Some d\<rparr>)"

definition list_lookup ::
  "(query_key \<times> FolderListResponse option) list \<Rightarrow> query_key \<Rightarrow> FolderListResponse option" where
  "list_lookup qs k = (case map_of qs k of None \<Rightarrow> None | Some d \<Rightarrow> d)"

definition list_store ::
  "query_key \<Rightarrow> FolderListResponse \<Rightarrow> (query_key \<times> FolderListResponse option) list
     \<Rightarrow> (query_key \<times> FolderListResponse option) list" where
  "list_store k d qs =
     (if k \<in> set (map fst qs) then map (\<lambda>q. if fst q = k then (k, Some d) else q) qs
      else qs @ [(k, Some d)])"

definition setListData ::
  "query_key \<Rightarrow> (FolderListResponse option \<Rightarrow> FolderListResponse option)
     \<Rightarrow> query_client \<Rightarrow> query_client" where
  "setListData k updater qc =
     (let logged = qc\<lparr>events := events qc @ [SetQueryData k]\<rparr>
      in case updater (list_lookup (list_data qc) k) of
           None \<Rightarrow> logged
         | Some d \<Rightarrow> logged\<lparr>list_data := list_store k d (list_data qc)\<rparr>)"

definition setDetailData ::
  "string \<Rightarrow> (js_object option \<Rightarrow> js_object option) \<Rightarrow> query_client \<Rightarrow> query_client" where
  "setDetailData folderId updater qc =
     (let logged = qc\<lparr>events := events qc @ [SetQueryData (folderKeys_detail folderId)]\<rparr>
      in case updater (detail_data qc folderId) of
           None \<Rightarrow> logged
         | Some d \<Rightarrow> logged\<lparr>detail_data := (detail_data qc)(folderId := Some d)\<rparr>)"

text \<open>
  What a mutation takes from outside: the id made by \<^verbatim>\<open>createOptimisticId()\<close>, the id that
  \<^verbatim>\<open>createOptimisticEntity\<close> gives the entity (both come from the shared optimistic
  helpers, which are not among the sources), and the results of
  \<^verbatim>\<open>new Date().toISOString()\<close>.
\<close>

record mutation_env =
  optimistic_id :: string
  entity_id :: string
  now_created :: string
  now_updated :: string

subsection \<open>useCreateFolder\<close>

record create_context =
  previousTree :: "FolderTreeResponse option"
  previousLists :: "(query_key \<times> FolderListResponse option) list"
  tempFolderId :: string

definition optimisticFolder :: "mutation_env \<Rightarrow> FolderCreate \<Rightarrow> Folder" where
  "optimisticFolder env folderData =
     \<lparr>name = name folderData,
      description = or_null (description folderData),
      color = or_null (color folderData),
      icon = or_null (icon folderData),
      position = (if position folderData \<noteq> 0 then position folderData else 0),
      metadata = metadata folderData,
      parent_id = or_null (parent_id folderData),
      id' = entity_id env,
      created_at = now_created env,
      updated_at = now_updated env,
      source_count = 0,
      subfolder_count = 0,
      total_sources = 0\<rparr>"

definition create_tree_updater ::
  "FolderCreate \<Rightarrow> Folder \<Rightarrow> FolderTreeResponse option \<Rightarrow> FolderTreeResponse option" where
  "create_tree_updater folderData optimistic old =
     (case old of
        None \<Rightarrow> None
      | Some old \<Rightarrow>
          let treeNode = FolderNode optimistic []
          in if \<not> truthy (parent_id folderData) then
               Some (old\<lparr>tree := tree old @ [treeNode],
                          total_folders := total_folders old + 1\<rparr>)
             else
               Some (old\<lparr>tree := addToParent (parent_id folderData) treeNode (tree old),
                          total_folders := total_folders old + 1\<rparr>))"

text \<open>\<^verbatim>\<open>(queryKey[2] as { parentId?: string | null })?.parentId\<close>\<close>

definition listKey_parentId :: "query_key \<Rightarrow> string nullable" where
  "listKey_parentId queryKey =
     (case drop 2 queryKey of KParentId p # _ \<Rightarrow> p | _ \<Rightarrow> Undefined)"

definition matchesParent :: "query_key \<Rightarrow> FolderCreate \<Rightarrow> bool" where
  "matchesParent queryKey folderData =
     (listKey_parentId queryKey = parent_id folderData
      \<or> (\<not> truthy (listKey_parentId queryKey) \<and> \<not> truthy (parent_id folderData))
      \<or> (listKey_parentId queryKey = Null \<and> \<not> truthy (parent_id folderData)))"

definition create_list_updater ::
  "FolderCreate \<Rightarrow> Folder \<Rightarrow> query_key \<Rightarrow> FolderListResponse option
     \<Rightarrow> FolderListResponse option" where
  "create_list_updater folderData optimistic queryKey old =
     (case old of
        None \<Rightarrow> None
      | Some old \<Rightarrow>
          if matchesParent queryKey folderData then
            Some \<lparr>folders = folders old @ [optimistic], total = total old + 1\<rparr>
          else Some old)"

definition create_onMutate ::
  "mutation_env \<Rightarrow> FolderCreate \<Rightarrow> query_client \<Rightarrow> create_context \<times> query_client" where
  "create_onMutate env folderData qc0 =
     (let qc1 = cancelQueries folderKeys_tree qc0;
          qc2 = cancelQueries folderKeys_lists qc1;
          prevTree = tree_data qc2;
          prevLists = getQueriesData folderKeys_lists qc2;
          tempId = optimistic_id env;
          optimistic = optimisticFolder env folderData;
          qc3 = (case prevTree of
                   None \<Rightarrow> qc2
                 | Some _ \<Rightarrow> setTreeData (create_tree_updater folderData optimistic) qc2);
          qc4 = foldl (\<lambda>qc q. setListData (fst q)
                         (create_list_updater folderData optimistic (fst q)) qc) qc3 prevLists
      in (\<lparr>previousTree = prevTree, previousLists = prevLists, tempFolderId = tempId\<rparr>, qc4))"

text \<open>
  \<^verbatim>\<open>onError\<close>: the context is missing when \<^verbatim>\<open>onMutate\<close> did not return. The toast is not
  part of the cache.
\<close>

definition create_onError :: "create_context option \<Rightarrow> query_client \<Rightarrow> query_client" where
  "create_onError ctx qc =
     (case ctx of
        None \<Rightarrow> qc
      | Some c \<Rightarrow>
          let qc1 = (case previousTree c of
                       None \<Rightarrow> qc
                     | Some t \<Rightarrow> setTreeData (\<lambda>_. Some t) qc)
          in foldl (\<lambda>qc q. setListData (fst q) (\<lambda>_. snd q) qc) qc1 (previousLists c))"

subsection \<open>useUpdateFolder\<close>

record update_context =
  upd_previousFolder :: "js_object option"
  upd_previousTree :: "FolderTreeResponse option"

text \<open>\<^verbatim>\<open>{ ...old, ...updates, updated_at: new Date().toISOString() }\<close>\<close>

definition update_detail_updater ::
  "mutation_env \<Rightarrow> js_object \<Rightarrow> js_object option \<Rightarrow> js_object option" where
  "update_detail_updater env updates old =
     (case old of
        None \<Rightarrow> None
      | Some old \<Rightarrow> Some ((old ++ updates)(''updated_at'' \<mapsto> JString (now_updated env))))"

definition update_onMutate ::
  "mutation_env \<Rightarrow> string \<Rightarrow> js_object \<Rightarrow> query_client \<Rightarrow> update_context \<times> query_client" where
  "update_onMutate env folderId updates qc0 =
     (let qc1 = cancelQueries (folderKeys_detail folderId) qc0;
          qc2 = cancelQueries folderKeys_tree qc1;
          prevFolder = detail_data qc2 folderId;
          prevTree = tree_data qc2;
          qc3 = (case prevFolder of
                   None \<Rightarrow> qc2
                 | Some _ \<Rightarrow> setDetailData folderId (update_detail_updater env updates) qc2)
      in (\<lparr>upd_previousFolder = prevFolder, upd_previousTree = prevTree\<rparr>, qc3))"

definition update_onError ::
  "string \<Rightarrow> update_context option \<Rightarrow> query_client \<Rightarrow> query_client" where
  "update_onError folderId ctx qc =
     (case ctx of
        None \<Rightarrow> qc
      | Some c \<Rightarrow>
          let qc1 = (case upd_previousFolder c of
                       None \<Rightarrow> qc
                     | Some f \<Rightarrow> setDetailData folderId (\<lambda>_. Some f) qc)
          in (case upd_previousTree c of
                None \<Rightarrow> qc1
              | Some t \<Rightarrow> setTreeData (\<lambda>_. Some t) qc1))"

subsection \<open>useDeleteFolder\<close>

definition delete_tree_updater ::
  "string \<Rightarrow> FolderTreeResponse option \<Rightarrow> FolderTreeResponse option" where
  "delete_tree_updater folderId old =
     (case old of
        None \<Rightarrow> None
      | Some old \<Rightarrow>
          Some (old\<lparr>tree := removeFolder folderId (tree old),
                     total_folders := max 0 (total_folders old - 1)\<rparr>))"

definition delete_onMutate ::
  "string \<Rightarrow> query_client \<Rightarrow> FolderTreeResponse option \<times> query_client" where
  "delete_onMutate folderId qc0 =
     (let qc1 = cancelQueries folderKeys_tree qc0;
          prevTree = tree_data qc1;
          qc2 = (case prevTree of
                   None \<Rightarrow> qc1
                 | Some _ \<Rightarrow> setTreeData (delete_tree_updater folderId) qc1)
      in (prevTree, qc2))"

text \<open>The context of the delete mutation is the object \<^verbatim>\<open>{ previousTree }\<close>.\<close>

definition delete_onError ::
  "FolderTreeResponse option option \<Rightarrow> query_client \<Rightarrow> query_client" where
  "delete_onError ctx qc =
     (case ctx of
        None \<Rightarrow> qc
      | Some prevTree \<Rightarrow>
          (case prevTree of
             None \<Rightarrow> qc
           | Some t \<Rightarrow> setTreeData (\<lambda>_. Some t) qc))"

text \<open>
  In a list of cache calls, every write goes to a key that an earlier
  \<^verbatim>\<open>cancelQueries\<close> covers; \<open>cancelled\<close> holds the filter keys cancelled so far.
\<close>

fun cancelled_before_write :: "query_key list \<Rightarrow> cache_event list \<Rightarrow> bool" where
  "cancelled_before_write cancelled [] = True"
| "cancelled_before_write cancelled (CancelQueries f # es) =
     cancelled_before_write (f # cancelled) es"
| "cancelled_before_write cancelled (SetQueryData k # es) =
     (list_ex (\<lambda>f. matches_key f k) cancelled \<and> cancelled_before_write cancelled es)"
| "cancelled_before_write cancelled (InvalidateQueries f # es) =
     cancelled_before_write cancelled es"

text \<open>The data held by the cache, without the record of calls.\<close>

definition cache_data ::
  "query_client \<Rightarrow> FolderTreeResponse option \<times> (query_key \<times> FolderListResponse option) list
     \<times> (string \<Rightarrow> js_object option)" where
  "cache_data qc = (tree_data qc, list_data qc, detail_data qc)"

text \<open>
  An example cache: the tree \<open>a > b > c\<close>, the list of root folders, a list query for
  the children of \<open>a\<close> that has no data yet, and the detail of \<open>a\<close>.
\<close>

definition example_cache :: query_client where
  "example_cache =
     \<lparr>tree_data = Some nested_example,
      list_data = [(folderKeys_list Undefined,
                      Some \<lparr>folders = [example_folder ''a'' 0 1 0], total = 1\<rparr>),
                   (folderKeys_list (Value ''a''), None)],
      detail_data = (\<lambda>_. None)(''a'' := Some [''name'' \<mapsto> JString ''a'']),
      events = []\<rparr>"

definition example_env :: mutation_env where
  "example_env = \<lparr>optimistic_id = ''temp-1'', entity_id = ''temp-2'',
                   now_created = ''2025-01-02T00:00:00.000Z'',
                   now_updated = ''2025-01-02T00:00:00.000Z''\<rparr>"

definition example_create :: "string nullable \<Rightarrow> FolderCreate" where
  "example_create parent =
     \<lparr>name = ''new'', description = Undefined, color = Undefined, icon = Undefined,
      position = 0, metadata = [], parent_id = parent\<rparr>"

text \<open>The folder records of a tree, in document order.\<close>

fun tree_folders :: "TreeNode list \<Rightarrow> Folder list" where
  "tree_folders [] = []"
| "tree_folders (SourceNode s # rest) = tree_folders rest"
| "tree_folders (FolderNode f children # rest) =
     f # tree_folders children @ tree_folders rest"

text \<open>The id of a folder with its own and its aggregate count of sources.\<close>

definition source_counts :: "Folder \<Rightarrow> string \<times> int \<times> int" where
  "source_counts f = (id' f, source_count f, total_sources f)"

text \<open>
  An example for deleting: folder \<open>a\<close> with one subfolder \<open>f\<close>, which holds two
  sources.
\<close>

definition delete_example :: query_client where
  "delete_example =
     \<lparr>tree_data = Some \<lparr>tree = [FolderNode (example_folder ''a'' 0 1 2)
                                    [FolderNode (example_folder ''f'' 2 0 2) []]],
                         total_folders = 2, tree_total_sources = Some 2\<rparr>,
      list_data = [], detail_data = (\<lambda>_. None), events = []\<rparr>"

text \<open>The children of the first folder with the given id, in document order.\<close>

fun children_of :: "string \<Rightarrow> TreeNode list \<Rightarrow> TreeNode list option" where
  "children_of folderId [] = None"
| "children_of folderId (SourceNode s # rest) = children_of folderId rest"
| "children_of folderId (FolderNode f children # rest) =
     (if id' f = folderId then Some children
      else (case children_of folderId children of
              Some result \<Rightarrow> Some result
            | None \<Rightarrow> children_of folderId rest))"

text \<open>
  The parent named by a \<^verbatim>\<open>FolderCreate\<close> is absent (\<^verbatim>\<open>undefined\<close>, \<^verbatim>\<open>null\<close> or empty) or a
  folder of the tree.
\<close>

definition parent_known :: "FolderCreate \<Rightarrow> TreeNode list \<Rightarrow> bool" where
  "parent_known folderData nodes =
     (case parent_id folderData of
        Value p \<Rightarrow> p = [] \<or> p \<in> set (folder_ids nodes)
      | _ \<Rightarrow> True)"

section \<open>The folder service: deleting a folder, validating a name\<close>

datatype http_method = GET | POST | PUT | DELETE

text \<open>What \<^verbatim>\<open>callAPIWithETag\<close> is called with.\<close>

record api_request =
  endpoint :: string
  http_method :: http_method

text \<open>\<^verbatim>\<open>Boolean.prototype.toString\<close>\<close>

definition boolean_toString :: "bool \<Rightarrow> string" where
  "boolean_toString b = (if b then ''true'' else ''false'')"

text \<open>
  \<^verbatim>\<open>URLSearchParams.prototype.toString\<close>: the application/x-www-form-urlencoded
  serializer. Letters, digits and \<^verbatim>\<open>* - . _\<close> are kept, a space becomes \<^verbatim>\<open>+\<close>, every other
  byte is percent-encoded.
\<close>

definition hex_digit :: "nat \<Rightarrow> char" where
  "hex_digit n = ''0123456789ABCDEF'' ! (n mod 16)"

definition form_encode_char :: "char \<Rightarrow> string" where
  "form_encode_char c =
     (if c \<in> set ''abcdefghijklmnopqrstuvwxyzABCDEFGHIJKLMNOPQRSTUVWXYZ0123456789*-._'' then [c]
      else if c = CHR '' '' then ''+''
      else [CHR ''%'', hex_digit (of_char c div 16), hex_digit (of_char c)])"

definition form_encode :: "string \<Rightarrow> string" where
  "form_encode s = concat (map form_encode_char s)"

fun URLSearchParams_toString :: "(string \<times> string) list \<Rightarrow> string" where
  "URLSearchParams_toString [] = []"
| "URLSearchParams_toString [(k, v)] = form_encode k @ ''='' @ form_encode v"
| "URLSearchParams_toString ((k, v) # ps) =
     form_encode k @ ''='' @ form_encode v @ ''&'' @ URLSearchParams_toString ps"

text \<open>
  \<^verbatim>\<open>folderService.deleteFolder(folderId, moveContentsToParent = true)\<close>: the default is
  taken when the argument is \<^verbatim>\<open>undefined\<close> (\<open>None\<close>).
\<close>

definition deleteFolder :: "string \<Rightarrow> bool option \<Rightarrow> api_request" where
  "deleteFolder folderId moveContentsToParent =
     (let move = (case moveContentsToParent of None \<Rightarrow> True | Some b \<Rightarrow> b);
          params = URLSearchParams_toString [(''move_contents_to_parent'', boolean_toString move)]
      in \<lparr>endpoint = ''/api/folders/'' @ folderId @ ''?'' @ params, http_method = DELETE\<rparr>)"

text \<open>
  The \<^verbatim>\<open>mutationFn\<close> of \<^verbatim>\<open>useDeleteFolder\<close>:
  \<^verbatim>\<open>({ folderId, moveContentsToParent = true }) => folderService.deleteFolder(folderId, moveContentsToParent)\<close>
\<close>

definition useDeleteFolder_mutationFn :: "string \<Rightarrow> bool option \<Rightarrow> api_request" where
  "useDeleteFolder_mutationFn folderId moveContentsToParent =
     deleteFolder folderId
       (Some (case moveContentsToParent of None \<Rightarrow> True | Some b \<Rightarrow> b))"

text \<open>
  A JavaScript string is a sequence of UTF-16 code units; \<^verbatim>\<open>length\<close> counts them.
  \<^verbatim>\<open>String.prototype.trim\<close> removes the code units of WhiteSpace and LineTerminator from
  both ends.
\<close>

type_synonym js_string = "16 word list"

definition is_white_space :: "16 word \<Rightarrow> bool" where
  "is_white_space c =
     (c \<in> set [0x0009, 0x000A, 0x000B, 0x000C, 0x000D, 0x0020, 0x00A0, 0x1680,
               0x2000, 0x2001, 0x2002, 0x2003, 0x2004, 0x2005, 0x2006, 0x2007,
               0x2008, 0x2009, 0x200A, 0x2028, 0x2029, 0x202F, 0x205F, 0x3000, 0xFEFF])"

definition trim :: "js_string \<Rightarrow> js_string" where
  "trim s = rev (dropWhile is_white_space (rev (dropWhile is_white_space s)))"

text \<open>The class \<^verbatim>\<open>[<>:"/\\|?*]\<close> of the regular expression \<^verbatim>\<open>invalidChars\<close>.\<close>

definition is_invalid_char :: "16 word \<Rightarrow> bool" where
  "is_invalid_char c =
     (c \<in> set [0x003C, 0x003E, 0x003A, 0x0022, 0x002F, 0x005C, 0x007C, 0x003F, 0x002A])"

definition invalidChars_test :: "js_string \<Rightarrow> bool" where
  "invalidChars_test s = list_ex is_invalid_char s"

record validation_result =
  valid :: bool
  error :: "string option"

definition validateFolderName :: "js_string \<Rightarrow> validation_result" where
  "validateFolderName folderName =
     (if folderName = [] \<or> length (trim folderName) = 0 then
        \<lparr>valid = False, error = Some ''Folder name is required''\<rparr>
      else if length folderName > 255 then
        \<lparr>valid = False, error = Some ''Folder name must be 255 characters or less''\<rparr>
      else if invalidChars_test folderName then
        \<lparr>valid = False, error = Some ''Folder name contains invalid characters''\<rparr>
      else \<lparr>valid = True, error = None\<rparr>)"

text \<open>A name of white space only (the empty name is one).\<close>

definition whitespace_only :: "js_string \<Rightarrow> bool" where
  "whitespace_only s = list_all is_white_space s"

text \<open>The code units of an ASCII string, for examples.\<close>

definition utf16 :: "string \<Rightarrow> js_string" where
  "utf16 s = map (\<lambda>c. of_nat (of_char c)) s"

section \<open>Properties of the ancestor walk\<close>

lemma walk_up_add:
  "walk_up t (m + n) x = (case walk_up t m x of None \<Rightarrow> None | Some y \<Rightarrow> walk_up t n y)"
  by (induction m arbitrary: x) (auto split: option.splits)

lemma walk_loop_iff:
  "walk_loop t a m cur d \<longleftrightarrow>
     (\<exists>k. d + k < m \<and> (case cur of None \<Rightarrow> None | Some c \<Rightarrow> walk_up t k c) = Some a)"
proof (induction t a m cur d rule: walk_loop.induct)
  case (1 t a m cur d)
  show ?case
  proof (cases cur)
    case None
    then show ?thesis by (simp add: walk_loop.simps)
  next
    case (Some c)
    have unf: "walk_loop t a m cur d =
      (if d < m then (if c = a then True
         else walk_loop t a m (select_parent_id t c) (d + 1)) else False)"
      unfolding Some by (subst walk_loop.simps) simp
    show ?thesis
    proof (cases "d < m")
      case False
      with Some unf show ?thesis by simp
    next
      case dm: True
      show ?thesis
      proof (cases "c = a")
        case True
        with Some dm have "d + 0 < m \<and> walk_up t 0 c = Some a" by simp
        then have "\<exists>k. d + k < m \<and> walk_up t k c = Some a" by blast
        with Some dm True unf show ?thesis by simp
      next
        case False
        have ih: "walk_loop t a m (select_parent_id t c) (d + 1) \<longleftrightarrow>
          (\<exists>k. d + 1 + k < m \<and>
             (case select_parent_id t c of None \<Rightarrow> None | Some c' \<Rightarrow> walk_up t k c') = Some a)"
          using "1.IH" [OF Some dm False] .
        have "(\<exists>k. d + k < m \<and> walk_up t k c = Some a) \<longleftrightarrow>
              (\<exists>k. d + 1 + k < m \<and>
                 (case select_parent_id t c of None \<Rightarrow> None | Some c' \<Rightarrow> walk_up t k c') = Some a)"
          (is "?L \<longleftrightarrow> ?R")
        proof
          assume ?L
          then obtain k where k: "d + k < m" "walk_up t k c = Some a" by blast
          with False obtain j where j: "k = Suc j" by (cases k) auto
          with k show ?R by (intro exI [of _ j]) simp
        next
          assume ?R
          then obtain k where k: "d + 1 + k < m"
            "(case select_parent_id t c of None \<Rightarrow> None | Some c' \<Rightarrow> walk_up t k c') = Some a"
            by blast
          then show ?L by (intro exI [of _ "Suc k"]) simp
        qed
        with ih Some dm False unf show ?thesis by simp
      qed
    qed
  qed
qed

lemma descendant_iff:
  "archon_is_folder_descendant t (Some x) (Some a) \<longleftrightarrow>
     x = a \<or> (\<exists>k<100. walk_up t (Suc k) x = Some a)"
  by (simp add: archon_is_folder_descendant_def walk_loop_iff)


lemma map_of_reparent:
  "map_of (map (\<lambda>r. if fst r = f then (fst r, p) else r) t) x =
     (if x = f then map_option (\<lambda>_. p) (map_of t f) else map_of t x)"
  by (induction t) auto

lemma select_reparent:
  "select_parent_id (map (\<lambda>r. if fst r = f then (fst r, p) else r) t) x =
     (if x = f then (case map_of t f of None \<Rightarrow> None | Some _ \<Rightarrow> p) else select_parent_id t x)"
  by (simp add: select_parent_id_def map_of_reparent split: option.splits)

lemma walk_up_agree:
  assumes same: "\<And>y. y \<noteq> f \<Longrightarrow> select_parent_id t' y = select_parent_id t y"
    and avoid: "\<forall>j<n. walk_up t' j x \<noteq> Some f"
  shows "walk_up t n x = walk_up t' n x"
  using avoid
proof (induction n arbitrary: x)
  case 0
  show ?case by simp
next
  case (Suc n)
  from Suc.prems have "walk_up t' 0 x \<noteq> Some f" by blast
  then have xf: "x \<noteq> f" by simp
  then have sel: "select_parent_id t' x = select_parent_id t x" by (rule same)
  show ?case
  proof (cases "select_parent_id t x")
    case None
    with sel show ?thesis by simp
  next
    case (Some q)
    have "\<forall>j<n. walk_up t' j q \<noteq> Some f"
    proof (intro allI impI)
      fix j assume "j < n"
      then have "walk_up t' (Suc j) x \<noteq> Some f" using Suc.prems by auto
      with sel Some show "walk_up t' j q \<noteq> Some f" by simp
    qed
    then have "walk_up t n q = walk_up t' n q" by (rule Suc.IH)
    with sel Some show ?thesis by simp
  qed
qed

lemma walk_up_None_mono:
  "walk_up t m x = None \<Longrightarrow> m \<le> n \<Longrightarrow> walk_up t n x = None"
  using walk_up_add [of t m "n - m" x] by simp

lemma reparent_no_own_ancestor:
  assumes inv: "no_own_ancestor t"
    and same: "\<And>y. y \<noteq> f \<Longrightarrow> select_parent_id t' y = select_parent_id t y"
    and par: "select_parent_id t' f = None \<or> select_parent_id t' f = Some p"
    and off: "\<forall>n. walk_up t n p \<noteq> Some f"
  shows "no_own_ancestor t'"
  unfolding no_own_ancestor_def
proof (intro allI notI)
  fix x n
  assume cyc: "walk_up t' (Suc n) x = Some x"
  have same': "\<And>y. y \<noteq> f \<Longrightarrow> select_parent_id t y = select_parent_id t' y"
    using same by simp
  have off': "walk_up t' m p \<noteq> Some f" for m
  proof (induction m rule: less_induct)
    case (less m)
    then have "\<forall>j<m. walk_up t' j p \<noteq> Some f" by blast
    with same have "walk_up t m p = walk_up t' m p" by (intro walk_up_agree [of f]) auto
    with off show ?case by metis
  qed
  show False
  proof (cases "\<forall>j<Suc n. walk_up t' j x \<noteq> Some f")
    case True
    with same have "walk_up t (Suc n) x = walk_up t' (Suc n) x"
      by (intro walk_up_agree [of f]) auto
    with cyc inv show False unfolding no_own_ancestor_def by metis
  next
    case False
    then obtain j where j: "j < Suc n" "walk_up t' j x = Some f" by blast
    have "walk_up t' (Suc n + j) x = Some f"
      using walk_up_add [of t' "Suc n" j x] cyc j by simp
    moreover have "walk_up t' (j + Suc n) x = walk_up t' (Suc n) f"
      using walk_up_add [of t' j "Suc n" x] j by simp
    ultimately have "walk_up t' (Suc n) f = Some f" by (simp add: add.commute)
    with par have "walk_up t' n p = Some f" by (auto split: option.splits)
    with off' show False by blast
  qed
qed


lemma move_folder_no_own_ancestor:
  assumes inv: "no_own_ancestor t"
    and mv: "move_folder t f new_parent = Some t'"
    and cap: "case new_parent of None \<Rightarrow> True | Some p \<Rightarrow> walk_up t 101 p = None"
  shows "no_own_ancestor t'"
proof -
  from mv have t': "t' = map (\<lambda>r. if fst r = f then (fst r, new_parent) else r) t"
    and guard: "\<not> archon_is_folder_descendant t new_parent (Some f)"
    by (auto simp: move_folder_def split: if_splits)
  have same: "\<And>y. y \<noteq> f \<Longrightarrow> select_parent_id t' y = select_parent_id t y"
    unfolding t' by (simp add: select_reparent)
  show ?thesis
  proof (cases new_parent)
    case None
    have sel: "select_parent_id t' y = (if y = f then None else select_parent_id t y)" for y
      unfolding t' None by (simp add: select_reparent split: option.splits)
    have agree: "walk_up t' n x = None \<or> walk_up t' n x = walk_up t n x" for n x
      by (induction n arbitrary: x) (auto simp: sel split: option.splits)
    show ?thesis unfolding no_own_ancestor_def
    proof (intro allI notI)
      fix x n assume "walk_up t' (Suc n) x = Some x"
      with agree [of "Suc n" x] have "walk_up t (Suc n) x = Some x" by auto
      with inv show False unfolding no_own_ancestor_def by blast
    qed
  next
    case (Some p)
    have par: "select_parent_id t' f = None \<or> select_parent_id t' f = Some p"
      unfolding t' Some by (simp add: select_reparent split: option.splits)
    from guard Some have pf: "p \<noteq> f" and near: "\<forall>k<100. walk_up t (Suc k) p \<noteq> Some f"
      by (auto simp: descendant_iff)
    from cap Some have far: "walk_up t 101 p = None" by simp
    have off: "\<forall>n. walk_up t n p \<noteq> Some f"
    proof
      fix n
      show "walk_up t n p \<noteq> Some f"
      proof (cases "n \<le> 100")
        case True
        show ?thesis
        proof (cases n)
          case 0
          with pf show ?thesis by simp
        next
          case (Suc k)
          with True near show ?thesis by simp
        qed
      next
        case False
        then have "walk_up t n p = None" using walk_up_None_mono [OF far, of n] by simp
        then show ?thesis by simp
      qed
    qed
    from inv same par off show ?thesis by (rule reparent_no_own_ancestor)
  qed
qed

lemma select_deep_chain:
  "select_parent_id deep_chain i = (if i < 101 then Some (Suc i) else None)"
proof -
  have "map_of deep_chain i = (if i < 102 then Some (if i < 101 then Some (Suc i) else None) else None)"
    unfolding deep_chain_def by (simp add: map_of_map_restrict restrict_map_def)
  then show ?thesis by (simp add: select_parent_id_def)
qed

lemma walk_up_deep_chain:
  "i \<le> 101 \<Longrightarrow> walk_up deep_chain n i = (if i + n \<le> 101 then Some (i + n) else None)"
  by (induction n arbitrary: i) (auto simp: select_deep_chain)

lemma walk_up_cycle:
  "walk_up t (Suc n) x = Some x \<Longrightarrow> walk_up t (k * Suc n) x = Some x"
proof (induction k)
  case 0
  show ?case by simp
next
  case (Suc k)
  have "walk_up t (k * Suc n + Suc n) x =
      (case walk_up t (k * Suc n) x of None \<Rightarrow> None | Some y \<Rightarrow> walk_up t (Suc n) y)"
    by (rule walk_up_add)
  also have "\<dots> = Some x" using Suc by simp
  finally have "walk_up t (k * Suc n + Suc n) x = Some x" .
  moreover have "Suc k * Suc n = k * Suc n + Suc n" by simp
  ultimately show ?case by (simp only:)
qed

lemma chains_end_no_own_ancestor:
  assumes "chains_end t"
  shows "no_own_ancestor t"
  unfolding no_own_ancestor_def
proof (intro allI notI)
  fix x n
  assume cyc: "walk_up t (Suc n) x = Some x"
  then have "map_of t x \<noteq> None"
    by (auto simp: select_parent_id_def split: option.splits)
  then obtain p where "(x, p) \<in> set t" by (auto dest: map_of_SomeD)
  with assms have "walk_up t (length t) x = None"
    by (auto simp: chains_end_def list_all_iff)
  then have "walk_up t (length t * Suc n) x = None"
    by (rule walk_up_None_mono) simp
  with walk_up_cycle [OF cyc, of "length t"] show False by simp
qed

lemma move_folder_no_self_reference:
  assumes "no_self_reference t" and "move_folder t f new_parent = Some t'"
  shows "no_self_reference t'"
proof -
  from assms(2) have t': "t' = map (\<lambda>r. if fst r = f then (fst r, new_parent) else r) t"
    and guard: "\<not> archon_is_folder_descendant t new_parent (Some f)"
    by (auto simp: move_folder_def split: if_splits)
  from guard have "new_parent \<noteq> Some f"
    by (auto simp: archon_is_folder_descendant_def)
  with assms(1) show ?thesis
    unfolding t' by (auto simp: no_self_reference_def list_all_iff)
qed

text \<open>
  Claim C1, as the code has it. \<^verbatim>\<open>archon_is_folder_descendant(target, ancestor)\<close> is TRUE
  exactly when both arguments are non-NULL and the ancestor is the target or one of the
  first 100 entries of the target's parent chain: the walk gives up after 100 steps. A
  re-parenting that is refused when the walk from the new parent finds the moved folder
  keeps the self-reference check constraint; it keeps every folder off its own ancestor
  chain when the chain of the new parent ends within 100 steps.
\<close>

theorem ancestor_walk_capped:
  "(archon_is_folder_descendant t (Some x) (Some a) \<longleftrightarrow>
      x = a \<or> (\<exists>k<100. walk_up t (Suc k) x = Some a))
   \<and> \<not> archon_is_folder_descendant t None q
   \<and> \<not> archon_is_folder_descendant t q None
   \<and> (no_self_reference t \<and> move_folder t f new_parent = Some t' \<longrightarrow> no_self_reference t')
   \<and> (no_own_ancestor t \<and> move_folder t f new_parent = Some t'
        \<and> (case new_parent of None \<Rightarrow> True | Some p \<Rightarrow> walk_up t 101 p = None)
      \<longrightarrow> no_own_ancestor t')"
proof -
  have "\<not> archon_is_folder_descendant t None q"
    by (simp add: archon_is_folder_descendant_def)
  moreover have "\<not> archon_is_folder_descendant t q None"
    by (simp add: archon_is_folder_descendant_def split: option.splits)
  ultimately show ?thesis
    using descendant_iff [of t x a] move_folder_no_self_reference [of t f new_parent t']
      move_folder_no_own_ancestor [of t f new_parent t']
    by blast
qed

text \<open>
  The theorem at a table of three folders: folder 2 lies below folder 1, and folder 3 is
  moved below folder 2.
\<close>

theorem ancestor_walk_capped_witness:
  "archon_is_folder_descendant [(1::nat, None), (2, Some 1), (3, None)] (Some 2) (Some 1)
   \<and> no_self_reference [(1::nat, None), (2, Some 1), (3, None)]
   \<and> no_own_ancestor [(1::nat, None), (2, Some 1), (3, None)]
   \<and> move_folder [(1::nat, None), (2, Some 1), (3, None)] 3 (Some 2)
       = Some [(1, None), (2, Some 1), (3, Some 2)]
   \<and> walk_up [(1::nat, None), (2, Some 1), (3, None)] 101 2 = None
   \<and> no_self_reference [(1::nat, None), (2, Some 1), (3, Some 2)]
   \<and> no_own_ancestor [(1::nat, None), (2, Some 1), (3, Some 2)]"
proof -
  let ?t = "[(1::nat, None), (2, Some 1), (3, None)]"
  have w0: "walk_up ?t (Suc 0) 2 = Some 1" by code_simp
  have h1: "no_self_reference ?t" by code_simp
  have "chains_end ?t" by code_simp
  then have h2: "no_own_ancestor ?t" by (rule chains_end_no_own_ancestor)
  have h3: "move_folder ?t 3 (Some 2) = Some [(1, None), (2, Some 1), (3, Some 2)]"
    by code_simp
  have h4: "walk_up ?t 101 2 = None" by code_simp
  from w0 have "\<exists>k<100. walk_up ?t (Suc k) 2 = Some 1"
    by (intro exI [of _ 0] conjI) simp_all
  then have w: "2 = (1::nat) \<or> (\<exists>k<100. walk_up ?t (Suc k) 2 = Some 1)" ..
  show ?thesis
    using ancestor_walk_capped [of ?t 2 1 None 3 "Some 2" "[(1, None), (2, Some 1), (3, Some 2)]"]
      w h1 h2 h3 h4 by simp
qed

text \<open>
  Without the bound the statement fails. In the chain of 102 folders, folder 101 is on
  the parent chain of folder 0, 101 steps up, and the walk does not find it. The table
  satisfies the check constraint; the guarded move of folder 101 below folder 0 is let
  through, the check constraint still holds, and folder 101 is then its own ancestor.
\<close>

theorem ancestor_walk_uncapped_counterexample:
  "\<not> archon_is_folder_descendant deep_chain (Some 0) (Some 101)
   \<and> walk_up deep_chain 101 0 = Some 101
   \<and> no_self_reference deep_chain
   \<and> (case move_folder deep_chain 101 (Some 0) of
         None \<Rightarrow> False
       | Some t' \<Rightarrow> no_self_reference t' \<and> walk_up t' 102 101 = Some 101)"
proof -
  let ?t' = "map (\<lambda>r. if fst r = 101 then (fst r, Some 0) else r) deep_chain"
  have a: "\<not> archon_is_folder_descendant deep_chain (Some 0) (Some 101)"
    by (simp add: descendant_iff walk_up_deep_chain select_deep_chain)
  have b: "walk_up deep_chain 101 0 = Some 101"
    by (simp add: walk_up_deep_chain)
  have c: "no_self_reference deep_chain"
    by (simp add: no_self_reference_def deep_chain_def list_all_iff)
  have mv: "move_folder deep_chain 101 (Some 0) = Some ?t'"
    using a by (simp add: move_folder_def)
  have c': "no_self_reference ?t'"
    using c mv by (rule move_folder_no_self_reference)
  have sel: "select_parent_id ?t' i = (if i = 101 then Some 0 else select_parent_id deep_chain i)" for i
    by (simp add: select_reparent) (simp add: deep_chain_def map_of_map_restrict restrict_map_def)
  have up: "i + n \<le> 101 \<Longrightarrow> walk_up ?t' n i = Some (i + n)" for i n
    by (induction n arbitrary: i) (auto simp: sel select_deep_chain)
  have "walk_up ?t' (Suc 101) 101 =
      (case select_parent_id ?t' 101 of None \<Rightarrow> None | Some p \<Rightarrow> walk_up ?t' 101 p)"
    by (rule walk_up.simps(2))
  moreover have "select_parent_id ?t' 101 = Some 0" by (simp add: sel)
  ultimately have "walk_up ?t' (Suc 101) 101 = walk_up ?t' 101 0"
    by (simp only: option.case)
  also have "\<dots> = Some 101" using up [of 0 101] by simp
  finally have "walk_up ?t' (Suc 101) 101 = Some 101" .
  moreover have "(102::nat) = Suc 101" by simp
  ultimately have d: "walk_up ?t' 102 101 = Some 101" by (simp only:)
  from a b c mv c' d show ?thesis by simp
qed

section \<open>The recursive count\<close>

lemma mem_cte_base:
  "g \<in> set (cte_base t (Some f)) \<longleftrightarrow> g = f \<and> f \<in> fst ` set t"
  by (auto simp: cte_base_def)

lemma mem_cte_step:
  "g \<in> set (cte_step t w) \<longleftrightarrow> (\<exists>p \<in> set w. (g, Some p) \<in> set t)"
  by (force simp: cte_step_def)

lemma cte_step_Nil: "cte_step t [] = []"
  by (simp add: cte_step_def)

lemma cte_step_funpow_Nil: "(cte_step t ^^ n) [] = []"
  by (induction n) (simp_all add: cte_step_Nil)

lemma row_iff_select:
  assumes "primary_key t"
  shows "(g, Some p) \<in> set t \<longleftrightarrow> select_parent_id t g = Some p"
proof
  assume "(g, Some p) \<in> set t"
  with assms have "map_of t g = Some (Some p)"
    by (simp add: primary_key_def)
  then show "select_parent_id t g = Some p" by (simp add: select_parent_id_def)
next
  assume "select_parent_id t g = Some p"
  then have "map_of t g = Some (Some p)"
    by (auto simp: select_parent_id_def split: option.splits)
  then show "(g, Some p) \<in> set t" by (rule map_of_SomeD)
qed

lemma select_in_table:
  "select_parent_id t g = Some p \<Longrightarrow> g \<in> fst ` set t"
  by (auto simp: select_parent_id_def split: option.splits dest!: map_of_SomeD intro: rev_image_eqI)

lemma walk_up_start_in_table:
  "walk_up t n p = Some f \<Longrightarrow> f \<in> fst ` set t \<Longrightarrow> p \<in> fst ` set t"
  by (cases n) (auto split: option.splits dest: select_in_table)

lemma cte_level_mem:
  assumes pk: "primary_key t"
  shows "g \<in> set ((cte_step t ^^ n) (cte_base t (Some f))) \<longleftrightarrow>
           g \<in> fst ` set t \<and> f \<in> fst ` set t \<and> walk_up t n g = Some f"
proof (induction n arbitrary: g)
  case 0
  show ?case by (auto simp: mem_cte_base)
next
  case (Suc n)
  have "g \<in> set ((cte_step t ^^ Suc n) (cte_base t (Some f))) \<longleftrightarrow>
          (\<exists>p. select_parent_id t g = Some p \<and> p \<in> set ((cte_step t ^^ n) (cte_base t (Some f))))"
    by (auto simp: mem_cte_step row_iff_select [OF pk])
  also have "\<dots> \<longleftrightarrow> (\<exists>p. select_parent_id t g = Some p \<and>
      p \<in> fst ` set t \<and> f \<in> fst ` set t \<and> walk_up t n p = Some f)"
    by (simp only: Suc.IH)
  also have "\<dots> \<longleftrightarrow> g \<in> fst ` set t \<and> f \<in> fst ` set t \<and> walk_up t (Suc n) g = Some f"
    by (auto split: option.splits dest: select_in_table walk_up_start_in_table)
  finally show ?case .
qed

lemma cte_loop_returns:
  assumes "(cte_step t ^^ n) w = []"
  shows "\<exists>r. cte_loop t w acc = Some r \<and>
              set r = set acc \<union> (\<Union>i. set ((cte_step t ^^ Suc i) w))"
  using assms
proof (induction n arbitrary: w acc)
  case 0
  then have "w = []" by simp
  then show ?case
    by (subst cte_loop.simps) (simp add: cte_step_Nil cte_step_funpow_Nil)
next
  case (Suc n)
  show ?case
  proof (cases "w = []")
    case True
    then show ?thesis
      by (subst cte_loop.simps) (simp add: cte_step_Nil cte_step_funpow_Nil)
  next
    case False
    from Suc.prems have "(cte_step t ^^ n) (cte_step t w) = []"
      by (simp add: funpow_swap1)
    from Suc.IH [OF this, of "acc @ cte_step t w"]
    obtain r where r: "cte_loop t (cte_step t w) (acc @ cte_step t w) = Some r"
      "set r = set (acc @ cte_step t w) \<union> (\<Union>i. set ((cte_step t ^^ Suc i) (cte_step t w)))"
      by blast
    have shift: "(cte_step t ^^ Suc i) (cte_step t w) = (cte_step t ^^ Suc (Suc i)) w" for i
      by (simp add: funpow_swap1)
    have "set (cte_step t w) \<union> (\<Union>i. set ((cte_step t ^^ Suc (Suc i)) w)) =
          (\<Union>i. set ((cte_step t ^^ Suc i) w))" (is "?A \<union> ?B = ?C")
    proof (intro set_eqI iffI)
      fix x assume "x \<in> ?A \<union> ?B"
      then show "x \<in> ?C"
      proof
        assume "x \<in> ?A"
        then have "x \<in> set ((cte_step t ^^ Suc 0) w)" by simp
        then show ?thesis by blast
      next
        assume "x \<in> ?B"
        then show ?thesis by blast
      qed
    next
      fix x assume "x \<in> ?C"
      then obtain i where i: "x \<in> set ((cte_step t ^^ Suc i) w)" by blast
      show "x \<in> ?A \<union> ?B"
      proof (cases i)
        case 0
        with i show ?thesis by simp
      next
        case (Suc j)
        with i have "x \<in> ?B" by blast
        then show ?thesis ..
      qed
    qed
    with r(2) have "set r = set acc \<union> (\<Union>i. set ((cte_step t ^^ Suc i) w))"
      by (simp only: shift set_append Un_assoc)
    moreover from False r(1) have "cte_loop t w acc = Some r"
      by (subst cte_loop.simps) simp
    ultimately show ?thesis by blast
  qed
qed

lemma cte_levels_end:
  assumes "primary_key t" and "chains_end t"
  shows "(cte_step t ^^ length t) (cte_base t (Some f)) = []"
proof -
  have "g \<notin> set ((cte_step t ^^ length t) (cte_base t (Some f)))" for g
  proof
    assume "g \<in> set ((cte_step t ^^ length t) (cte_base t (Some f)))"
    then have g: "g \<in> fst ` set t" "walk_up t (length t) g = Some f"
      by (simp_all add: cte_level_mem [OF assms(1)])
    from g(1) assms(2) have "walk_up t (length t) g = None"
      by (auto simp: chains_end_def list_all_iff)
    with g(2) show False by simp
  qed
  then show ?thesis by (cases "(cte_step t ^^ length t) (cte_base t (Some f))") auto
qed

lemma folder_tree_returns:
  assumes pk: "primary_key t" and ce: "chains_end t"
  shows "\<exists>r. folder_tree t (Some f) = Some r \<and>
           set r = {g. g \<in> fst ` set t \<and> f \<in> fst ` set t \<and> in_subtree t f g}"
proof -
  let ?b = "cte_base t (Some f)"
  from cte_loop_returns [OF cte_levels_end [OF pk ce], of f ?b]
  obtain r where r: "cte_loop t ?b ?b = Some r"
    "set r = set ?b \<union> (\<Union>i. set ((cte_step t ^^ Suc i) ?b))"
    by blast
  have "set r = (\<Union>i. set ((cte_step t ^^ i) ?b))"
  proof (intro set_eqI iffI)
    fix x assume "x \<in> set r"
    with r(2) have "x \<in> set ((cte_step t ^^ 0) ?b) \<or> (\<exists>i. x \<in> set ((cte_step t ^^ Suc i) ?b))"
      by auto
    then show "x \<in> (\<Union>i. set ((cte_step t ^^ i) ?b))" by blast
  next
    fix x assume "x \<in> (\<Union>i. set ((cte_step t ^^ i) ?b))"
    then obtain i where i: "x \<in> set ((cte_step t ^^ i) ?b)" by blast
    show "x \<in> set r"
    proof (cases i)
      case 0
      with i r(2) show ?thesis by simp
    next
      case (Suc j)
      with i have "x \<in> (\<Union>i. set ((cte_step t ^^ Suc i) ?b))" by blast
      with r(2) show ?thesis by simp
    qed
  qed
  moreover have "x \<in> (\<Union>i. set ((cte_step t ^^ i) ?b)) \<longleftrightarrow>
      x \<in> fst ` set t \<and> f \<in> fst ` set t \<and> in_subtree t f x" for x
    by (simp add: cte_level_mem [OF pk] in_subtree_def)
  ultimately have "set r = {g. g \<in> fst ` set t \<and> f \<in> fst ` set t \<and> in_subtree t f g}"
    by blast
  with r(1) show ?thesis by (auto simp: folder_tree_def)
qed

lemma walk_up_stays_in_table:
  assumes fk: "parent_foreign_key t"
  shows "g \<in> fst ` set t \<Longrightarrow> walk_up t n g = Some f \<Longrightarrow> f \<in> fst ` set t"
proof (induction n arbitrary: g)
  case 0
  then show ?case by simp
next
  case (Suc n)
  then obtain p where p: "select_parent_id t g = Some p" "walk_up t n p = Some f"
    by (auto split: option.splits)
  from p(1) have "map_of t g = Some (Some p)"
    by (auto simp: select_parent_id_def split: option.splits)
  then have "(g, Some p) \<in> set t" by (rule map_of_SomeD)
  with fk have "p \<in> fst ` set t"
    by (auto simp: parent_foreign_key_def list_all_iff)
  then show ?case using p(2) by (rule Suc.IH)
qed

lemma count_folder_sources_chains_end:
  assumes "primary_key t" and "parent_foreign_key t" and "folder_foreign_key t srcs"
    and "chains_end t"
  shows "archon_count_folder_sources t srcs (Some f) =
           Some (int (length (sources_in_subtree t srcs f)))"
proof -
  from folder_tree_returns [OF assms(1) assms(4), of f]
  obtain r where r: "folder_tree t (Some f) = Some r"
    "set r = {g. g \<in> fst ` set t \<and> f \<in> fst ` set t \<and> in_subtree t f g}"
    by blast
  have "(case snd s of None \<Rightarrow> False | Some g \<Rightarrow> g \<in> set r) =
        (case snd s of None \<Rightarrow> False | Some g \<Rightarrow> in_subtree t f g)"
    if s: "s \<in> set srcs" for s
  proof (cases "snd s")
    case None
    then show ?thesis by simp
  next
    case (Some g)
    with s assms(3) have g: "g \<in> fst ` set t"
      by (auto simp: folder_foreign_key_def list_all_iff)
    have "in_subtree t f g \<Longrightarrow> f \<in> fst ` set t"
      using walk_up_stays_in_table [OF assms(2) g] by (auto simp: in_subtree_def)
    with g Some r(2) show ?thesis by auto
  qed
  then have "filter (\<lambda>s. case snd s of None \<Rightarrow> False | Some g \<Rightarrow> g \<in> set r) srcs =
             sources_in_subtree t srcs f"
    unfolding sources_in_subtree_def by (intro filter_cong) auto
  with r(1) show ?thesis by (simp add: archon_count_folder_sources_def)
qed

lemma walk_up_Some_prefix:
  "walk_up t n x = Some y \<Longrightarrow> k \<le> n \<Longrightarrow> \<exists>z. walk_up t k x = Some z"
  using walk_up_None_mono [of t k x n] by (cases "walk_up t k x") auto

lemma forest_chains_end:
  assumes fk: "parent_foreign_key t" and acyc: "no_own_ancestor t"
  shows "chains_end t"
  unfolding chains_end_def list_all_iff
proof (intro ballI)
  fix r assume r: "r \<in> set t"
  let ?x = "fst r" and ?N = "length t"
  show "walk_up t ?N ?x = None"
  proof (rule ccontr)
    assume "walk_up t ?N ?x \<noteq> None"
    then obtain y where y: "walk_up t ?N ?x = Some y" by blast
    define c where "c k = the (walk_up t k ?x)" for k
    have c: "walk_up t k ?x = Some (c k)" if "k \<le> ?N" for k
      using walk_up_Some_prefix [OF y that] by (auto simp: c_def)
    have x_in: "?x \<in> fst ` set t" using r by simp
    have "c ` {0..?N} \<subseteq> fst ` set t"
    proof
      fix z assume "z \<in> c ` {0..?N}"
      then obtain k where k: "k \<le> ?N" "z = c k" by auto
      from walk_up_stays_in_table [OF fk x_in c [OF k(1)]] k(2) show "z \<in> fst ` set t" by simp
    qed
    then have "card (c ` {0..?N}) \<le> card (fst ` set t)"
      by (intro card_mono) auto
    also have "\<dots> \<le> card (set t)" by (intro card_image_le) simp
    also have "\<dots> \<le> ?N" by (rule card_length)
    finally have "card (c ` {0..?N}) < card {0..?N}" by simp
    then have "\<not> inj_on c {0..?N}" by (rule pigeonhole)
    then obtain i j where ij: "i \<le> ?N" "j \<le> ?N" "i \<noteq> j" "c i = c j"
      by (auto simp: inj_on_def)
    have cyc: False if lt: "i < j" and le: "j \<le> ?N" and eq: "c i = c j" for i j
    proof -
      define m where "m = j - Suc i"
      from lt have m: "j = i + Suc m" by (simp add: m_def)
      from le lt have "i \<le> ?N" by simp
      then have "walk_up t i ?x = Some (c i)" by (rule c)
      moreover have "walk_up t (i + Suc m) ?x = Some (c j)" using c [OF le] m by simp
      ultimately have "walk_up t (Suc m) (c i) = Some (c j)"
        by (simp only: walk_up_add option.case)
      moreover from acyc have "walk_up t (Suc m) (c i) \<noteq> Some (c i)"
        unfolding no_own_ancestor_def by blast
      ultimately show False using eq by simp
    qed
    from ij show False
      using cyc [of i j] cyc [of j i] by (cases "i < j") auto
  qed
qed

text \<open>
  Claim C7. On a table that satisfies the schema (primary key, both foreign keys) and in
  which no folder is its own ancestor, \<^verbatim>\<open>archon_count_folder_sources(f)\<close> returns, and
  what it returns is the number of sources whose folder is \<open>f\<close> or has \<open>f\<close> on
  its parent chain.
\<close>

theorem count_folder_sources_correct:
  assumes "primary_key t" and "parent_foreign_key t" and "folder_foreign_key t srcs"
    and "no_own_ancestor t"
  shows "archon_count_folder_sources t srcs (Some f) =
           Some (int (length (sources_in_subtree t srcs f)))"
  using assms(1,2,3) forest_chains_end [OF assms(2) assms(4)]
  by (rule count_folder_sources_chains_end)

text \<open>
  Four folders (3 below 2 below 1, and 4 apart) and five sources: below folder 2 there
  are the two sources filed in folders 3 and 2.
\<close>

theorem count_folder_sources_correct_witness:
  "primary_key [(1::nat, None), (2, Some 1), (3, Some 2), (4, None)]
   \<and> parent_foreign_key [(1::nat, None), (2, Some 1), (3, Some 2), (4, None)]
   \<and> folder_foreign_key [(1::nat, None), (2, Some 1), (3, Some 2), (4, None)]
         [(10::nat, Some 1), (11, Some 3), (12, Some 4), (13, None), (14, Some 2)]
   \<and> no_own_ancestor [(1::nat, None), (2, Some 1), (3, Some 2), (4, None)]
   \<and> archon_count_folder_sources [(1::nat, None), (2, Some 1), (3, Some 2), (4, None)]
         [(10::nat, Some 1), (11, Some 3), (12, Some 4), (13, None), (14, Some 2)] (Some 2) = Some 2
   \<and> length (sources_in_subtree [(1::nat, None), (2, Some 1), (3, Some 2), (4, None)]
         [(10::nat, Some 1), (11, Some 3), (12, Some 4), (13, None), (14, Some 2)] 2) = 2"
proof -
  let ?t = "[(1::nat, None), (2, Some 1), (3, Some 2), (4, None)]"
  let ?s = "[(10::nat, Some 1), (11, Some 3), (12, Some 4), (13, None), (14, Some (2::nat))]"
  have h1: "primary_key ?t" by code_simp
  have h2: "parent_foreign_key ?t" by code_simp
  have h3: "folder_foreign_key ?t ?s" by code_simp
  have "chains_end ?t" by code_simp
  then have h4: "no_own_ancestor ?t" by (rule chains_end_no_own_ancestor)
  have ev: "archon_count_folder_sources ?t ?s (Some 2) = Some 2" by code_simp
  from count_folder_sources_correct [OF h1 h2 h3 h4, of 2] ev
  have "length (sources_in_subtree ?t ?s 2) = 2" by simp
  with h1 h2 h3 h4 ev show ?thesis by simp
qed

section \<open>Circular references in the cached tree\<close>

lemma findParentPath_prefix:
  "findParentPath T nodes path = map_option (\<lambda>p. path @ p) (findParentPath T nodes [])"
proof (induction nodes arbitrary: path rule: folder_ids.induct)
  case 1
  show ?case by simp
next
  case (2 s rest)
  show ?case using "2.IH" [of path] by simp
next
  case (3 f children rest)
  show ?case
  proof (cases "id' f = T")
    case True
    then show ?thesis by simp
  next
    case False
    have a: "findParentPath T children (path @ [id' f]) =
        map_option (\<lambda>p. (path @ [id' f]) @ p) (findParentPath T children [])"
      by (rule "3.IH"(1))
    have b: "findParentPath T children [id' f] =
        map_option (\<lambda>p. [id' f] @ p) (findParentPath T children [])"
      using "3.IH"(1) [of "[id' f]"] .
    have c: "findParentPath T rest path = map_option (\<lambda>p. path @ p) (findParentPath T rest [])"
      by (rule "3.IH"(2))
    show ?thesis
      using False by (simp add: a b c split: option.splits)
  qed
qed

lemma findParentPath_None_iff:
  "findParentPath T nodes path = None \<longleftrightarrow> T \<notin> set (folder_ids nodes)"
proof (induction nodes arbitrary: path rule: folder_ids.induct)
  case 1
  show ?case by simp
next
  case (2 s rest)
  show ?case using "2.IH" [of path] by simp
next
  case (3 f children rest)
  show ?case
    using "3.IH"(1) [of "path @ [id' f]"] "3.IH"(2) [of path]
    by (cases "findParentPath T children (path @ [id' f])") auto
qed

lemma is_descendant_in_ids:
  "is_descendant_in T F nodes \<Longrightarrow> T \<in> set (folder_ids nodes)"
  by (induction nodes rule: folder_ids.induct) auto

lemma findParentPath_descendant:
  assumes "distinct (folder_ids nodes)" and "findParentPath T nodes [] = Some p"
  shows "F \<in> set p \<longleftrightarrow> is_descendant_in T F nodes"
  using assms
proof (induction nodes arbitrary: p rule: folder_ids.induct)
  case 1
  then show ?case by simp
next
  case (2 s rest)
  then show ?case by simp
next
  case (3 f children rest)
  from "3.prems"(1) have dc: "distinct (folder_ids children)" and dr: "distinct (folder_ids rest)"
    and nf: "id' f \<notin> set (folder_ids children)" "id' f \<notin> set (folder_ids rest)"
    and disj: "set (folder_ids children) \<inter> set (folder_ids rest) = {}"
    by auto
  show ?case
  proof (cases "id' f = T")
    case True
    with "3.prems"(2) have "p = []" by simp
    moreover from True nf have "\<not> is_descendant_in T F children" "\<not> is_descendant_in T F rest"
      by (auto dest: is_descendant_in_ids)
    ultimately show ?thesis using True nf by simp
  next
    case False
    show ?thesis
    proof (cases "findParentPath T children []")
      case None
      then have nc: "T \<notin> set (folder_ids children)" by (simp add: findParentPath_None_iff)
      then have "findParentPath T children [id' f] = None" by (simp add: findParentPath_None_iff)
      with False "3.prems"(2) have "findParentPath T rest [] = Some p" by simp
      from "3.IH"(2) [OF dr this] have "F \<in> set p \<longleftrightarrow> is_descendant_in T F rest" .
      moreover from nc have "\<not> is_descendant_in T F children"
        by (auto dest: is_descendant_in_ids)
      ultimately show ?thesis using nc by simp
    next
      case (Some q)
      then have "findParentPath T children [id' f] = Some (id' f # q)"
        using findParentPath_prefix [of T children "[id' f]"] by simp
      with False "3.prems"(2) have p: "p = id' f # q" by simp
      from Some have tc: "T \<in> set (folder_ids children)"
        using findParentPath_None_iff [of T children "[]"] by auto
      with disj have "T \<notin> set (folder_ids rest)" by auto
      then have "\<not> is_descendant_in T F rest" by (auto dest: is_descendant_in_ids)
      moreover from "3.IH"(1) [OF dc Some] have "F \<in> set q \<longleftrightarrow> is_descendant_in T F children" .
      ultimately show ?thesis using p tc by auto
    qed
  qed
qed

lemma wouldCreateCircularReference_iff:
  assumes "distinct (folder_ids (tree ft))" and "T \<noteq> []"
  shows "wouldCreateCircularReference F (Value T) ft \<longleftrightarrow> T = F \<or> is_descendant_in T F (tree ft)"
proof (cases "findParentPath T (tree ft) []")
  case None
  then have "T \<notin> set (folder_ids (tree ft))" by (simp add: findParentPath_None_iff)
  then have "\<not> is_descendant_in T F (tree ft)" by (auto dest: is_descendant_in_ids)
  with None assms(2) show ?thesis by (auto simp: wouldCreateCircularReference_def)
next
  case (Some p)
  from findParentPath_descendant [OF assms(1) Some, of F] Some assms(2)
  show ?thesis by (auto simp: wouldCreateCircularReference_def)
qed

text \<open>
  Claim C2. The folder ids of a cached tree are primary keys of the folder table: they are
  all different, and none is the empty string. Over such a tree, and for a drop zone with
  the folder id \<open>T\<close>, \<^verbatim>\<open>wouldCreateCircularReference(F, T, tree)\<close> is true exactly when
  \<open>T\<close> is \<open>F\<close> or a descendant of \<open>F\<close> (that is, \<open>F\<close> lies on the path from a
  root to \<open>T\<close>), and \<^verbatim>\<open>validateDrop\<close> returns false for a folder \<open>F\<close> dragged onto a
  zone that is \<open>F\<close> itself or one of its descendants.
\<close>

theorem drop_onto_descendant_rejected:
  assumes "distinct (folder_ids (tree ft))" and "T \<noteq> []"
  shows "(wouldCreateCircularReference F (Value T) ft \<longleftrightarrow>
            T = F \<or> is_descendant_in T F (tree ft))
       \<and> (drag_type item = folder_item \<and> drag_id item = F
            \<and> drop_type zone = folder_zone \<and> drop_folder_id zone = Value T
            \<and> (T = F \<or> is_descendant_in T F (tree ft))
          \<longrightarrow> \<not> validateDrop item items zone (Some ft))"
proof -
  have w: "wouldCreateCircularReference F (Value T) ft \<longleftrightarrow>
      T = F \<or> is_descendant_in T F (tree ft)"
    using assms by (rule wouldCreateCircularReference_iff)
  have "\<not> validateDrop item items zone (Some ft)"
    if "drag_type item = folder_item" "drag_id item = F" "drop_type zone = folder_zone"
      "drop_folder_id zone = Value T" "T = F \<or> is_descendant_in T F (tree ft)"
    using that w assms(2) by (simp add: validateDrop_def)
  with w show ?thesis by blast
qed

text \<open>In the tree \<open>a > b > c\<close>, dragging \<open>a\<close> onto \<open>c\<close> is refused.\<close>

theorem drop_onto_descendant_rejected_witness:
  "distinct (folder_ids (tree nested_example)) \<and> ''c'' \<noteq> []
   \<and> is_descendant_in ''c'' ''a'' (tree nested_example)
   \<and> wouldCreateCircularReference ''a'' (Value ''c'') nested_example
   \<and> \<not> validateDrop (folder_drag ''a'') [folder_drag ''a''] (folder_drop ''c'')
         (Some nested_example)"
proof -
  have h1: "distinct (folder_ids (tree nested_example))"
    by (simp add: nested_example_def example_folder_def)
  have h2: "''c'' \<noteq> []" by simp
  have d: "is_descendant_in ''c'' ''a'' (tree nested_example)"
    by (simp add: nested_example_def example_folder_def)
  from drop_onto_descendant_rejected [OF h1 h2, of "''a''" "folder_drag ''a''" "folder_drop ''c''"
      "[folder_drag ''a'']"] d
  have "wouldCreateCircularReference ''a'' (Value ''c'') nested_example"
    and "\<not> validateDrop (folder_drag ''a'') [folder_drag ''a''] (folder_drop ''c'')
          (Some nested_example)"
    by (simp_all add: folder_drag_def folder_drop_def)
  with h1 h2 d show ?thesis by simp
qed

section \<open>Dropping\<close>

text \<open>
  Claim C9. \<^verbatim>\<open>handleDrop\<close> calls none of the move callbacks unless the state is dragging,
  the drop is valid and a dragged item is present; when that guard fails it returns with
  the drag state as it was and without any effect.
\<close>

theorem invalid_drop_no_move:
  "(\<not> (isDragging ds \<and> isValidDrop ds \<and> draggedItem ds \<noteq> None)
      \<longrightarrow> handleDrop cbs ds zone = (ds, []))
   \<and> (list_ex is_move_call (snd (handleDrop cbs ds zone))
      \<longrightarrow> isDragging ds \<and> isValidDrop ds \<and> draggedItem ds \<noteq> None)"
proof -
  have a: "handleDrop cbs ds zone = (ds, [])"
    if "\<not> (isDragging ds \<and> isValidDrop ds \<and> draggedItem ds \<noteq> None)"
    using that by (auto simp: handleDrop_def)
  have "isDragging ds \<and> isValidDrop ds \<and> draggedItem ds \<noteq> None"
    if "list_ex is_move_call (snd (handleDrop cbs ds zone))"
  proof (rule ccontr)
    assume "\<not> ?thesis"
    then have "handleDrop cbs ds zone = (ds, [])" by (rule a)
    with that show False by simp
  qed
  with a show ?thesis by blast
qed

text \<open>
  A drag whose drop is not valid leaves everything as it is; a valid one calls
  \<^verbatim>\<open>onMoveFolder\<close>.
\<close>

theorem invalid_drop_no_move_witness:
  "\<not> (isDragging invalid_drag \<and> isValidDrop invalid_drag \<and> draggedItem invalid_drag \<noteq> None)
   \<and> handleDrop all_callbacks invalid_drag (folder_drop ''a'') = (invalid_drag, [])
   \<and> list_ex is_move_call (snd (handleDrop all_callbacks valid_drag (folder_drop ''b'')))
   \<and> isDragging valid_drag \<and> isValidDrop valid_drag \<and> draggedItem valid_drag \<noteq> None"
proof -
  have h1: "\<not> (isDragging invalid_drag \<and> isValidDrop invalid_drag
      \<and> draggedItem invalid_drag \<noteq> None)"
    by (simp add: invalid_drag_def)
  have h2: "list_ex is_move_call (snd (handleDrop all_callbacks valid_drag (folder_drop ''b'')))"
    by (simp add: handleDrop_def valid_drag_def all_callbacks_def folder_drag_def
        folder_drop_def try_call_def or_null_def)
  from invalid_drop_no_move [of invalid_drag all_callbacks "folder_drop ''a''"] h1
  have c1: "handleDrop all_callbacks invalid_drag (folder_drop ''a'') = (invalid_drag, [])"
    by blast
  from invalid_drop_no_move [of valid_drag all_callbacks "folder_drop ''b''"] h2
  have c2: "isDragging valid_drag \<and> isValidDrop valid_drag \<and> draggedItem valid_drag \<noteq> None"
    by blast
  from h1 h2 c1 c2 show ?thesis by blast
qed

section \<open>Deleting a folder\<close>

lemma params_true:
  "URLSearchParams_toString [(''move_contents_to_parent'', boolean_toString True)] =
     ''move_contents_to_parent=true''"
  by code_simp

text \<open>
  Claim C10. Without the \<^verbatim>\<open>moveContentsToParent\<close> argument, both the service function and
  the hook's mutation function send \<^verbatim>\<open>DELETE /api/folders/{id}?move_contents_to_parent=true\<close>.
\<close>

theorem delete_defaults_to_reparenting:
  "deleteFolder folderId None =
     \<lparr>endpoint = ''/api/folders/'' @ folderId @ ''?move_contents_to_parent=true'',
      http_method = DELETE\<rparr>
   \<and> useDeleteFolder_mutationFn folderId None =
     \<lparr>endpoint = ''/api/folders/'' @ folderId @ ''?move_contents_to_parent=true'',
      http_method = DELETE\<rparr>"
  by (simp add: deleteFolder_def useDeleteFolder_mutationFn_def params_true
      del: URLSearchParams_toString.simps)

section \<open>Validating a folder name\<close>

lemma dropWhile_all: "list_all P xs \<Longrightarrow> dropWhile P xs = []"
  by (simp add: list_all_iff)

lemma trim_empty_iff: "length (trim s) = 0 \<longleftrightarrow> whitespace_only s"
proof
  assume "length (trim s) = 0"
  then have "dropWhile is_white_space (rev (dropWhile is_white_space s)) = []"
    by (simp add: trim_def)
  then have all: "\<forall>c \<in> set (dropWhile is_white_space s). is_white_space c"
    by (simp add: dropWhile_eq_Nil_conv)
  have "dropWhile is_white_space s = []"
  proof (rule ccontr)
    assume ne: "dropWhile is_white_space s \<noteq> []"
    then have "\<not> is_white_space (hd (dropWhile is_white_space s))"
      by (rule hd_dropWhile)
    moreover from ne have "hd (dropWhile is_white_space s) \<in> set (dropWhile is_white_space s)"
      by (rule hd_in_set)
    ultimately show False using all by blast
  qed
  then have "\<forall>c \<in> set s. is_white_space c"
    by (simp only: dropWhile_eq_Nil_conv)
  then show "whitespace_only s"
    by (simp add: whitespace_only_def list_all_iff)
next
  assume "whitespace_only s"
  then have e: "dropWhile is_white_space s = []"
    unfolding whitespace_only_def by (rule dropWhile_all)
  show "length (trim s) = 0" unfolding trim_def e by simp
qed

text \<open>
  Claim C6. \<^verbatim>\<open>validateFolderName\<close> answers \<^verbatim>\<open>valid: false\<close> for the empty name and for a
  name of white space only, for a name longer than 255 code units, and for a name with
  one of \<^verbatim>\<open>< > : " / \ | ? *\<close>; it answers \<^verbatim>\<open>valid: true\<close> for every other name.
\<close>

theorem folder_name_validation:
  "valid (validateFolderName folderName) \<longleftrightarrow>
     \<not> (folderName = [] \<or> whitespace_only folderName \<or> length folderName > 255
        \<or> list_ex is_invalid_char folderName)"
  using trim_empty_iff [of folderName]
  by (auto simp: validateFolderName_def invalidChars_test_def whitespace_only_def)

theorem folder_name_validation_witness:
  "valid (validateFolderName (utf16 ''Docs''))
   \<and> \<not> valid (validateFolderName (utf16 ''a/b''))
   \<and> list_ex is_invalid_char (utf16 ''a/b'')
   \<and> \<not> valid (validateFolderName (utf16 ''  ''))
   \<and> whitespace_only (utf16 ''  '')"
proof -
  have a: "\<not> (utf16 ''Docs'' = [] \<or> whitespace_only (utf16 ''Docs'')
      \<or> length (utf16 ''Docs'') > 255 \<or> list_ex is_invalid_char (utf16 ''Docs''))"
    by code_simp
  have b: "list_ex is_invalid_char (utf16 ''a/b'')" by code_simp
  have c: "whitespace_only (utf16 ''  '')" by code_simp
  from a b c folder_name_validation [of "utf16 ''Docs''"]
    folder_name_validation [of "utf16 ''a/b''"] folder_name_validation [of "utf16 ''  ''"]
  show ?thesis by blast
qed

section \<open>The query cache\<close>

lemma list_lookup_store:
  "list_lookup (list_store k d qs) k' = (if k' = k then Some d else list_lookup qs k')"
proof (cases "k \<in> set (map fst qs)")
  case True
  have "map_of (map (\<lambda>q. if fst q = k then (k, Some d) else q) qs) k' =
        (if k' = k then map_option (\<lambda>_. Some d) (map_of qs k) else map_of qs k')"
    by (induction qs) auto
  moreover from True obtain v where "map_of qs k = Some v"
    by (cases "map_of qs k") (auto simp: map_of_eq_None_iff)
  ultimately show ?thesis using True by (simp add: list_lookup_def list_store_def)
next
  case False
  then have "map_of qs k = None" by (simp add: map_of_eq_None_iff)
  with False show ?thesis
    by (auto simp: list_lookup_def list_store_def map_add_def split: option.splits)
qed

lemma keys_list_store:
  "k \<in> set (map fst qs) \<Longrightarrow> map fst (list_store k d qs) = map fst qs"
  by (auto simp: list_store_def)

lemma alist_rebuild:
  "distinct (map fst A) \<Longrightarrow> A = map (\<lambda>k. (k, list_lookup A k)) (map fst A)"
proof (induction A)
  case Nil
  show ?case by simp
next
  case (Cons a A)
  obtain k d where a: "a = (k, d)" by (cases a)
  from Cons.prems a have k: "k \<notin> set (map fst A)" and dist: "distinct (map fst A)" by auto
  have "map (\<lambda>k'. (k', list_lookup (a # A) k')) (map fst A) =
        map (\<lambda>k'. (k', list_lookup A k')) (map fst A)"
    using k a by (intro map_cong) (auto simp: list_lookup_def)
  also have "\<dots> = A" using Cons.IH [OF dist] by simp
  finally show ?case using a by (simp add: list_lookup_def)
qed

lemma alist_eqI:
  assumes "map fst A = map fst B" and "distinct (map fst A)"
    and "\<And>k. k \<in> set (map fst A) \<Longrightarrow> list_lookup A k = list_lookup B k"
  shows "A = B"
proof -
  have a: "A = map (\<lambda>k. (k, list_lookup A k)) (map fst A)"
    using assms(2) by (rule alist_rebuild)
  have c: "map (\<lambda>k. (k, list_lookup A k)) (map fst A) =
           map (\<lambda>k. (k, list_lookup B k)) (map fst A)"
    by (rule map_cong [OF refl]) (simp add: assms(3))
  from assms(1,2) have "distinct (map fst B)" by simp
  then have "B = map (\<lambda>k. (k, list_lookup B k)) (map fst B)" by (rule alist_rebuild)
  then have b: "B = map (\<lambda>k. (k, list_lookup B k)) (map fst A)"
    by (simp only: assms(1))
  from a c b show ?thesis by (rule trans [OF trans [OF _ _] sym])
qed

text \<open>A run of list writes, one for every entry of a snapshot.\<close>

lemma setListData_other:
  "tree_data (setListData k u qc) = tree_data qc"
  "detail_data (setListData k u qc) = detail_data qc"
  "events (setListData k u qc) = events qc @ [SetQueryData k]"
  by (simp_all add: setListData_def Let_def split: option.splits)

lemma setListData_lookup:
  "list_lookup (list_data (setListData k u qc)) k' =
     (if k' = k then (case u (list_lookup (list_data qc) k) of
                        None \<Rightarrow> list_lookup (list_data qc) k
                      | Some d \<Rightarrow> Some d)
      else list_lookup (list_data qc) k')"
  by (simp add: setListData_def Let_def list_lookup_store split: option.splits)

lemma setListData_keys:
  "k \<in> set (map fst (list_data qc)) \<Longrightarrow>
     map fst (list_data (setListData k u qc)) = map fst (list_data qc)"
  by (simp add: setListData_def Let_def keys_list_store split: option.splits)

lemma fold_lists_other:
  "tree_data (foldl (\<lambda>qc q. setListData (fst q) (U q) qc) qc S) = tree_data qc"
  "detail_data (foldl (\<lambda>qc q. setListData (fst q) (U q) qc) qc S) = detail_data qc"
  "events (foldl (\<lambda>qc q. setListData (fst q) (U q) qc) qc S) =
     events qc @ map (\<lambda>q. SetQueryData (fst q)) S"
  by (induction S arbitrary: qc) (simp_all add: setListData_other)

lemma fold_lists_keys:
  "set (map fst S) \<subseteq> set (map fst (list_data qc)) \<Longrightarrow>
     map fst (list_data (foldl (\<lambda>qc q. setListData (fst q) (U q) qc) qc S)) =
     map fst (list_data qc)"
proof (induction S arbitrary: qc)
  case Nil
  show ?case by simp
next
  case (Cons q S)
  from Cons.prems have q: "fst q \<in> set (map fst (list_data qc))" by simp
  have keys: "map fst (list_data (setListData (fst q) (U q) qc)) = map fst (list_data qc)"
    using q by (rule setListData_keys)
  with Cons.prems have "set (map fst S) \<subseteq> set (map fst (list_data (setListData (fst q) (U q) qc)))"
    by simp
  from Cons.IH [OF this] keys show ?case by simp
qed

lemma fold_lists_lookup_other:
  "k \<notin> set (map fst S) \<Longrightarrow>
     list_lookup (list_data (foldl (\<lambda>qc q. setListData (fst q) (U q) qc) qc S)) k =
     list_lookup (list_data qc) k"
  by (induction S arbitrary: qc) (auto simp: setListData_lookup)

lemma fold_lists_lookup:
  assumes "distinct (map fst S)" and "q \<in> set S"
  shows "list_lookup (list_data (foldl (\<lambda>qc q. setListData (fst q) (U q) qc) qc S)) (fst q) =
     (case U q (list_lookup (list_data qc) (fst q)) of
        None \<Rightarrow> list_lookup (list_data qc) (fst q)
      | Some d \<Rightarrow> Some d)"
  using assms
proof (induction S arbitrary: qc)
  case Nil
  then show ?case by simp
next
  case (Cons a S)
  from Cons.prems(1) have na: "fst a \<notin> set (map fst S)" and dist: "distinct (map fst S)"
    by auto
  show ?case
  proof (cases "q = a")
    case True
    with na show ?thesis
      by (simp add: fold_lists_lookup_other setListData_lookup split: option.splits)
  next
    case False
    with Cons.prems(2) have qS: "q \<in> set S" by simp
    then have "fst q \<in> fst ` set S" by (rule imageI)
    with na have "fst q \<noteq> fst a" by (metis list.set_map)
    then have e: "list_lookup (list_data (setListData (fst a) (U a) qc)) (fst q) =
        list_lookup (list_data qc) (fst q)"
      by (simp add: setListData_lookup)
    from Cons.IH [OF dist qS, of "setListData (fst a) (U a) qc"]
    show ?thesis unfolding e by simp
  qed
qed

lemma setTreeData_other:
  "list_data (setTreeData u qc) = list_data qc"
  "detail_data (setTreeData u qc) = detail_data qc"
  "events (setTreeData u qc) = events qc @ [SetQueryData folderKeys_tree]"
  "tree_data (setTreeData u qc) = (case u (tree_data qc) of None \<Rightarrow> tree_data qc | Some d \<Rightarrow> Some d)"
  by (simp_all add: setTreeData_def Let_def split: option.splits)

lemma setDetailData_other:
  "list_data (setDetailData i u qc) = list_data qc"
  "tree_data (setDetailData i u qc) = tree_data qc"
  "events (setDetailData i u qc) = events qc @ [SetQueryData (folderKeys_detail i)]"
  "detail_data (setDetailData i u qc) =
     (case u (detail_data qc i) of None \<Rightarrow> detail_data qc
      | Some d \<Rightarrow> (detail_data qc)(i := Some d))"
  by (simp_all add: setDetailData_def Let_def split: option.splits)

lemma cancelQueries_other:
  "list_data (cancelQueries k qc) = list_data qc"
  "tree_data (cancelQueries k qc) = tree_data qc"
  "detail_data (cancelQueries k qc) = detail_data qc"
  "events (cancelQueries k qc) = events qc @ [CancelQueries k]"
  by (simp_all add: cancelQueries_def)

lemma list_lookup_entry:
  "distinct (map fst A) \<Longrightarrow> (k, v) \<in> set A \<Longrightarrow> list_lookup A k = v"
  by (simp add: list_lookup_def)

lemma rollback_lists:
  assumes dist: "distinct (map fst (list_data qc))"
    and S: "S = filter P (list_data qc)"
    and U: "\<And>q. U q None = None"
    and mid: "list_data qc' =
      list_data (foldl (\<lambda>qc q. setListData (fst q) (U q) qc) qc S)"
  shows "list_data (foldl (\<lambda>qc q. setListData (fst q) (\<lambda>_. snd q) qc) qc' S) = list_data qc"
proof (rule alist_eqI)
  let ?fwd = "foldl (\<lambda>qc q. setListData (fst q) (U q) qc) qc S"
  let ?undo = "foldl (\<lambda>qc q. setListData (fst q) (\<lambda>_. snd q) qc) qc' S"
  have sub: "set (map fst S) \<subseteq> set (map fst (list_data qc))"
    unfolding S by auto
  have dS: "distinct (map fst S)"
    unfolding S using dist by (rule distinct_map_filter)
  have k1: "map fst (list_data ?fwd) = map fst (list_data qc)"
    using sub by (rule fold_lists_keys)
  then have k1': "map fst (list_data qc') = map fst (list_data qc)"
    by (simp only: mid)
  with sub have "set (map fst S) \<subseteq> set (map fst (list_data qc'))" by simp
  then have "map fst (list_data ?undo) = map fst (list_data qc')"
    by (rule fold_lists_keys)
  with k1' show keys: "map fst (list_data ?undo) = map fst (list_data qc)" by simp
  from dist keys show "distinct (map fst (list_data ?undo))" by simp
  fix k
  assume "k \<in> set (map fst (list_data ?undo))"
  show "list_lookup (list_data ?undo) k = list_lookup (list_data qc) k"
  proof (cases "k \<in> set (map fst S)")
    case False
    then have "list_lookup (list_data ?undo) k = list_lookup (list_data qc') k"
      by (rule fold_lists_lookup_other)
    also have "\<dots> = list_lookup (list_data ?fwd) k" by (simp only: mid)
    also have "\<dots> = list_lookup (list_data qc) k"
      using False by (rule fold_lists_lookup_other)
    finally show ?thesis .
  next
    case True
    then obtain q where q: "q \<in> set S" "fst q = k" by auto
    from q(1) have "(fst q, snd q) \<in> set (list_data qc)" unfolding S by simp
    with dist have prev: "list_lookup (list_data qc) (fst q) = snd q"
      by (rule list_lookup_entry)
    have fwd: "list_lookup (list_data qc') (fst q) =
        (case U q (list_lookup (list_data qc) (fst q)) of
           None \<Rightarrow> list_lookup (list_data qc) (fst q) | Some d \<Rightarrow> Some d)"
      unfolding mid using dS q(1) by (rule fold_lists_lookup)
    have bck: "list_lookup (list_data ?undo) (fst q) =
        (case snd q of None \<Rightarrow> list_lookup (list_data qc') (fst q) | Some d \<Rightarrow> Some d)"
      using fold_lists_lookup [OF dS q(1), of "\<lambda>q _. snd q" qc'] by simp
    show ?thesis
    proof (cases "snd q")
      case None
      with prev fwd U [of q] have "list_lookup (list_data qc') (fst q) = None" by simp
      with bck None prev q(2) show ?thesis by simp
    next
      case (Some d)
      with bck prev q(2) show ?thesis by simp
    qed
  qed
qed

lemma create_list_updater_None: "create_list_updater d opt k None = None"
  by (simp add: create_list_updater_def)

lemma create_rollback:
  assumes dist: "distinct (map fst (list_data qc))"
  shows "cache_data (create_onError (Some (fst (create_onMutate env d qc)))
           (snd (create_onMutate env d qc))) = cache_data qc"
proof -
  let ?qc2 = "cancelQueries folderKeys_lists (cancelQueries folderKeys_tree qc)"
  let ?S = "filter (\<lambda>q. matches_key folderKeys_lists (fst q)) (list_data qc)"
  let ?opt = "optimisticFolder env d"
  let ?qc3 = "case tree_data qc of None \<Rightarrow> ?qc2
              | Some _ \<Rightarrow> setTreeData (create_tree_updater d ?opt) ?qc2"
  let ?qc4 = "foldl (\<lambda>qc q. setListData (fst q) (create_list_updater d ?opt (fst q)) qc) ?qc3 ?S"
  let ?ctx = "\<lparr>previousTree = tree_data qc, previousLists = ?S,
               tempFolderId = optimistic_id env\<rparr>"
  have om: "create_onMutate env d qc = (?ctx, ?qc4)"
    by (simp add: create_onMutate_def Let_def getQueriesData_def cancelQueries_other)
  let ?qc5 = "case tree_data qc of None \<Rightarrow> ?qc4 | Some t \<Rightarrow> setTreeData (\<lambda>_. Some t) ?qc4"
  let ?qc6 = "foldl (\<lambda>qc q. setListData (fst q) (\<lambda>_. snd q) qc) ?qc5 ?S"
  have oe: "create_onError (Some ?ctx) ?qc4 = ?qc6"
    by (simp add: create_onError_def Let_def)
  have l3: "list_data ?qc3 = list_data qc"
    by (simp add: setTreeData_other cancelQueries_other split: option.splits)
  have d3: "detail_data ?qc3 = detail_data qc"
    by (simp add: setTreeData_other cancelQueries_other split: option.splits)
  have t4: "tree_data ?qc4 = tree_data ?qc3" by (rule fold_lists_other)
  have t3: "tree_data qc = None \<Longrightarrow> tree_data ?qc3 = None"
    by (simp add: cancelQueries_other)
  have tree: "tree_data ?qc6 = tree_data qc"
  proof -
    have "tree_data ?qc6 = tree_data ?qc5" by (rule fold_lists_other)
    also have "\<dots> = tree_data qc"
      using t4 t3 by (cases "tree_data qc") (simp_all add: setTreeData_other)
    finally show ?thesis .
  qed
  have detail: "detail_data ?qc6 = detail_data qc"
  proof -
    have "detail_data ?qc6 = detail_data ?qc5" by (rule fold_lists_other)
    also have "\<dots> = detail_data ?qc4"
      by (cases "tree_data qc") (simp_all add: setTreeData_other)
    also have "\<dots> = detail_data ?qc3" by (rule fold_lists_other)
    finally show ?thesis using d3 by simp
  qed
  have lists: "list_data ?qc6 = list_data ?qc3"
  proof (rule rollback_lists [where P = "\<lambda>q. matches_key folderKeys_lists (fst q)"
        and U = "\<lambda>q. create_list_updater d ?opt (fst q)"])
    show "distinct (map fst (list_data ?qc3))" using dist l3 by simp
    show "?S = filter (\<lambda>q. matches_key folderKeys_lists (fst q)) (list_data ?qc3)"
      using l3 by simp
    show "create_list_updater d ?opt (fst q) None = None" for q
      by (rule create_list_updater_None)
    show "list_data ?qc5 = list_data ?qc4"
      by (cases "tree_data qc") (simp_all add: setTreeData_other)
  qed
  from tree lists l3 detail show ?thesis
    unfolding om oe fst_conv snd_conv cache_data_def by simp
qed

lemma update_rollback:
  "cache_data (update_onError i (Some (fst (update_onMutate env i u qc)))
     (snd (update_onMutate env i u qc))) = cache_data qc"
proof -
  have "(detail_data qc)(i := detail_data qc i) = detail_data qc" by simp
  then show ?thesis
    by (cases "detail_data qc i"; cases "tree_data qc")
      (simp_all add: cache_data_def update_onMutate_def update_onError_def Let_def
        setTreeData_other setDetailData_other cancelQueries_other update_detail_updater_def)
qed

lemma delete_rollback:
  "cache_data (delete_onError (Some (fst (delete_onMutate i qc)))
     (snd (delete_onMutate i qc))) = cache_data qc"
  by (cases "tree_data qc")
    (simp_all add: cache_data_def delete_onMutate_def delete_onError_def Let_def
      setTreeData_other cancelQueries_other delete_tree_updater_def)

section \<open>Rollback and ordering of the optimistic updates\<close>

text \<open>
  Claim C3. For each of the three mutations with an optimistic update, running
  \<^verbatim>\<open>onError\<close> with the context that \<^verbatim>\<open>onMutate\<close> returned, on the cache that \<^verbatim>\<open>onMutate\<close>
  left, gives back the cached tree, the cached lists and the cached folder details as
  they were before \<^verbatim>\<open>onMutate\<close>. The cache holds one query per key.
\<close>

theorem rollback_restores_snapshot:
  assumes "distinct (map fst (list_data qc))"
  shows "cache_data (create_onError (Some (fst (create_onMutate env d qc)))
             (snd (create_onMutate env d qc))) = cache_data qc
       \<and> cache_data (update_onError i (Some (fst (update_onMutate env i u qc)))
             (snd (update_onMutate env i u qc))) = cache_data qc
       \<and> cache_data (delete_onError (Some (fst (delete_onMutate i qc)))
             (snd (delete_onMutate i qc))) = cache_data qc"
  using create_rollback [OF assms] update_rollback delete_rollback by blast

text \<open>
  On the example cache, creating a root folder changes the cached tree, and the rollback
  puts the old tree back.
\<close>

theorem rollback_restores_snapshot_witness:
  "distinct (map fst (list_data example_cache))
   \<and> tree_data (snd (create_onMutate example_env (example_create Undefined) example_cache))
       \<noteq> tree_data example_cache
   \<and> cache_data (create_onError
         (Some (fst (create_onMutate example_env (example_create Undefined) example_cache)))
         (snd (create_onMutate example_env (example_create Undefined) example_cache)))
       = cache_data example_cache"
proof -
  have h: "distinct (map fst (list_data example_cache))"
    by (simp add: example_cache_def folderKeys_list_def)
  have "total_folders (the (tree_data (snd (create_onMutate example_env
            (example_create Undefined) example_cache)))) = 4"
    by (simp add: create_onMutate_def Let_def example_cache_def cancelQueries_other
        fold_lists_other setTreeData_other create_tree_updater_def example_create_def
        nested_example_def cancelQueries_def)
  moreover have "total_folders (the (tree_data example_cache)) = 3"
    by (simp add: example_cache_def nested_example_def)
  ultimately have c: "tree_data (snd (create_onMutate example_env (example_create Undefined)
      example_cache)) \<noteq> tree_data example_cache"
    by auto
  from rollback_restores_snapshot [OF h, of example_env "example_create Undefined"]
  show ?thesis using h c by blast
qed

lemma writes_after_cancel:
  "\<forall>q \<in> set S. list_ex (\<lambda>f. matches_key f (fst q)) c \<Longrightarrow>
     cancelled_before_write c (map (\<lambda>q. SetQueryData (fst q)) S)"
  by (induction S) simp_all

lemma create_events:
  "events (snd (create_onMutate env d qc)) =
     events qc @ [CancelQueries folderKeys_tree, CancelQueries folderKeys_lists]
       @ (case tree_data qc of None \<Rightarrow> [] | Some _ \<Rightarrow> [SetQueryData folderKeys_tree])
       @ map (\<lambda>q. SetQueryData (fst q)) (getQueriesData folderKeys_lists qc)"
  by (cases "tree_data qc")
    (simp_all add: create_onMutate_def Let_def fold_lists_other setTreeData_other
      cancelQueries_other getQueriesData_def)

lemma update_events:
  "events (snd (update_onMutate env i u qc)) =
     events qc @ [CancelQueries (folderKeys_detail i), CancelQueries folderKeys_tree]
       @ (case detail_data qc i of None \<Rightarrow> [] | Some _ \<Rightarrow> [SetQueryData (folderKeys_detail i)])"
  by (cases "detail_data qc i")
    (simp_all add: update_onMutate_def Let_def setDetailData_other cancelQueries_other)

lemma delete_events:
  "events (snd (delete_onMutate i qc)) =
     events qc @ [CancelQueries folderKeys_tree]
       @ (case tree_data qc of None \<Rightarrow> [] | Some _ \<Rightarrow> [SetQueryData folderKeys_tree])"
  by (cases "tree_data qc")
    (simp_all add: delete_onMutate_def Let_def setTreeData_other cancelQueries_other)

text \<open>
  Claim C8. The cache calls that each \<^verbatim>\<open>onMutate\<close> adds start with its
  \<^verbatim>\<open>cancelQueries\<close> calls, and every \<^verbatim>\<open>setQueryData\<close> among them writes to a key that one of
  the earlier \<^verbatim>\<open>cancelQueries\<close> calls covers.
\<close>

theorem cancel_before_optimistic_write:
  "(\<exists>new. events (snd (create_onMutate env d qc)) = events qc @ new
        \<and> cancelled_before_write [] new)
   \<and> (\<exists>new. events (snd (update_onMutate env i u qc)) = events qc @ new
        \<and> cancelled_before_write [] new)
   \<and> (\<exists>new. events (snd (delete_onMutate i qc)) = events qc @ new
        \<and> cancelled_before_write [] new)"
proof (intro conjI)
  let ?S = "getQueriesData folderKeys_lists qc"
  have "\<forall>q \<in> set ?S. list_ex (\<lambda>f. matches_key f (fst q)) [folderKeys_lists, folderKeys_tree]"
    by (simp add: getQueriesData_def)
  then have w: "cancelled_before_write [folderKeys_lists, folderKeys_tree]
      (map (\<lambda>q. SetQueryData (fst q)) ?S)"
    by (rule writes_after_cancel)
  have "cancelled_before_write []
      ([CancelQueries folderKeys_tree, CancelQueries folderKeys_lists]
        @ (case tree_data qc of None \<Rightarrow> [] | Some _ \<Rightarrow> [SetQueryData folderKeys_tree])
        @ map (\<lambda>q. SetQueryData (fst q)) ?S)"
    using w by (cases "tree_data qc") (simp_all add: matches_key_def)
  with create_events [of env d qc]
  show "\<exists>new. events (snd (create_onMutate env d qc)) = events qc @ new
      \<and> cancelled_before_write [] new" by blast
next
  have "cancelled_before_write []
      ([CancelQueries (folderKeys_detail i), CancelQueries folderKeys_tree]
        @ (case detail_data qc i of None \<Rightarrow> []
           | Some _ \<Rightarrow> [SetQueryData (folderKeys_detail i)]))"
    by (cases "detail_data qc i") (simp_all add: matches_key_def)
  with update_events [of env i u qc]
  show "\<exists>new. events (snd (update_onMutate env i u qc)) = events qc @ new
      \<and> cancelled_before_write [] new" by blast
next
  have "cancelled_before_write []
      ([CancelQueries folderKeys_tree]
        @ (case tree_data qc of None \<Rightarrow> [] | Some _ \<Rightarrow> [SetQueryData folderKeys_tree]))"
    by (cases "tree_data qc") (simp_all add: matches_key_def)
  with delete_events [of i qc]
  show "\<exists>new. events (snd (delete_onMutate i qc)) = events qc @ new
      \<and> cancelled_before_write [] new" by blast
qed

section \<open>Removing a folder from the cached tree\<close>

lemma removeFolder_Nil: "removeFolder F [] = []"
  by (simp add: removeFolder.simps)

lemma removeFolder_Source:
  "removeFolder F (SourceNode s # rest) = SourceNode s # removeFolder F rest"
  by (simp add: removeFolder.simps [of F "SourceNode s # rest"] removeFolder.simps [of F rest])

lemma removeFolder_Folder:
  "removeFolder F (FolderNode f children # rest) =
     (if id' f = F then removeFolder F rest
      else FolderNode f (removeFolder F children) # removeFolder F rest)"
  by (simp add: removeFolder.simps [of F "FolderNode f children # rest"]
      removeFolder.simps [of F rest])

lemmas removeFolder_eqs = removeFolder_Nil removeFolder_Source removeFolder_Folder

lemma folder_ids_tree_folders: "folder_ids nodes = map id' (tree_folders nodes)"
  by (induction nodes rule: folder_ids.induct) simp_all

lemma removeFolder_gone: "F \<notin> set (folder_ids (removeFolder F nodes))"
  by (induction nodes rule: folder_ids.induct) (simp_all add: removeFolder_eqs)

lemma removeFolder_keeps:
  "g \<in> set (folder_ids nodes) \<Longrightarrow> g \<noteq> F \<Longrightarrow> \<not> is_descendant_in g F nodes \<Longrightarrow>
     g \<in> set (folder_ids (removeFolder F nodes))"
  by (induction nodes rule: folder_ids.induct) (auto simp: removeFolder_eqs)

lemma removeFolder_subseq:
  "subseq (tree_folders (removeFolder F nodes)) (tree_folders nodes)"
proof (induction nodes rule: folder_ids.induct)
  case 1
  show ?case by (simp add: removeFolder_eqs)
next
  case (2 s rest)
  then show ?case by (simp add: removeFolder_eqs)
next
  case (3 f children rest)
  show ?case
  proof (cases "id' f = F")
    case True
    have "subseq (tree_folders (removeFolder F rest)) ((f # tree_folders children) @ tree_folders rest)"
      using "3.IH"(2) by (rule list_emb_append2)
    with True show ?thesis by (simp add: removeFolder_eqs)
  next
    case False
    have "subseq (tree_folders (removeFolder F children) @ tree_folders (removeFolder F rest))
        (tree_folders children @ tree_folders rest)"
      using "3.IH" by (rule list_emb_append_mono)
    with False show ?thesis by (simp add: removeFolder_eqs)
  qed
qed

lemma removeFolder_ids:
  "distinct (folder_ids nodes) \<Longrightarrow>
     folder_ids (removeFolder F nodes) =
       filter (\<lambda>g. g \<noteq> F \<and> \<not> is_descendant_in g F nodes) (folder_ids nodes)"
proof (induction nodes rule: folder_ids.induct)
  case 1
  show ?case by (simp add: removeFolder_eqs)
next
  case (2 s rest)
  then show ?case by (simp add: removeFolder_eqs)
next
  case (3 f children rest)
  from "3.prems" have dc: "distinct (folder_ids children)" and dr: "distinct (folder_ids rest)"
    and nf: "id' f \<notin> set (folder_ids children)" "id' f \<notin> set (folder_ids rest)"
    and disj: "set (folder_ids children) \<inter> set (folder_ids rest) = {}"
    by auto
  let ?P = "\<lambda>g. g \<noteq> F \<and> \<not> is_descendant_in g F (FolderNode f children # rest)"
  have in_c: "g \<in> set (folder_ids children) \<Longrightarrow> \<not> is_descendant_in g F rest" for g
    using disj by (auto dest: is_descendant_in_ids)
  have in_r: "g \<in> set (folder_ids rest) \<Longrightarrow> \<not> is_descendant_in g F children" for g
    using disj by (auto dest: is_descendant_in_ids)
  have in_r': "g \<in> set (folder_ids rest) \<Longrightarrow> g \<notin> set (folder_ids children)" for g
    using disj by auto
  show ?case
  proof (cases "id' f = F")
    case True
    have c: "filter ?P (folder_ids children) = []"
      using True by (simp add: filter_empty_conv)
    have r: "filter ?P (folder_ids rest) =
        filter (\<lambda>g. g \<noteq> F \<and> \<not> is_descendant_in g F rest) (folder_ids rest)"
      by (rule filter_cong [OF refl]) (simp add: in_r in_r')
    from True c r "3.IH"(2) [OF dr] show ?thesis
      by (simp add: removeFolder_eqs)
  next
    case False
    have h: "?P (id' f)"
      using False nf by (auto dest: is_descendant_in_ids)
    have c: "filter ?P (folder_ids children) =
        filter (\<lambda>g. g \<noteq> F \<and> \<not> is_descendant_in g F children) (folder_ids children)"
      using False by (intro filter_cong [OF refl]) (simp add: in_c)
    have r: "filter ?P (folder_ids rest) =
        filter (\<lambda>g. g \<noteq> F \<and> \<not> is_descendant_in g F rest) (folder_ids rest)"
      using False by (intro filter_cong [OF refl]) (simp add: in_r)
    have "folder_ids (removeFolder F (FolderNode f children # rest)) =
        id' f # folder_ids (removeFolder F children) @ folder_ids (removeFolder F rest)"
      using False by (simp add: removeFolder_eqs)
    also have "\<dots> = id' f # filter ?P (folder_ids children) @ filter ?P (folder_ids rest)"
      unfolding c r using "3.IH"(1) [OF dc] "3.IH"(2) [OF dr] by simp
    also have "\<dots> = filter ?P (folder_ids (FolderNode f children # rest))"
      using h by simp
    finally show ?thesis .
  qed
qed

text \<open>
  Claim C5, as the code has it. With a cached tree, \<^verbatim>\<open>useDeleteFolder.onMutate\<close> leaves no
  folder with the id \<open>F\<close> in the tree, keeps every other folder that is not below a
  folder \<open>F\<close>, adds no folder and changes no \<^verbatim>\<open>source_count\<close> or \<^verbatim>\<open>total_sources\<close> of the
  folders that stay, and lowers \<^verbatim>\<open>total_folders\<close> by one, not below zero. When the folder
  ids of the tree are all different, the folders that stay are exactly, and in their
  order, those that are neither \<open>F\<close> nor below \<open>F\<close>.
\<close>

theorem delete_removes_folder:
  assumes "tree_data qc = Some old"
  shows "tree_data (snd (delete_onMutate F qc)) =
           Some (old\<lparr>tree := removeFolder F (tree old),
                      total_folders := max 0 (total_folders old - 1)\<rparr>)
     \<and> F \<notin> set (folder_ids (removeFolder F (tree old)))
     \<and> (g \<in> set (folder_ids (tree old)) \<and> g \<noteq> F \<and> \<not> is_descendant_in g F (tree old)
          \<longrightarrow> g \<in> set (folder_ids (removeFolder F (tree old))))
     \<and> subseq (map source_counts (tree_folders (removeFolder F (tree old))))
               (map source_counts (tree_folders (tree old)))
     \<and> (distinct (folder_ids (tree old)) \<longrightarrow>
           folder_ids (removeFolder F (tree old)) =
             filter (\<lambda>h. h \<noteq> F \<and> \<not> is_descendant_in h F (tree old))
               (folder_ids (tree old)))"
proof -
  have "tree_data (snd (delete_onMutate F qc)) =
      Some (old\<lparr>tree := removeFolder F (tree old),
                 total_folders := max 0 (total_folders old - 1)\<rparr>)"
    using assms
    by (simp add: delete_onMutate_def Let_def setTreeData_other cancelQueries_other
        delete_tree_updater_def)
  moreover have "subseq (map source_counts (tree_folders (removeFolder F (tree old))))
      (map source_counts (tree_folders (tree old)))"
    using removeFolder_subseq [of F "tree old"] by (simp add: subseq_map)
  ultimately show ?thesis
    using removeFolder_gone [of F "tree old"] removeFolder_keeps [of g "tree old" F]
      removeFolder_ids [of "tree old" F]
    by blast
qed

text \<open>
  Deleting \<open>b\<close> from the tree \<open>a > b > c\<close> of the example cache: \<open>a\<close> stays,
  \<open>b\<close> and \<open>c\<close> go.
\<close>

theorem delete_removes_folder_witness:
  "tree_data example_cache = Some nested_example
   \<and> distinct (folder_ids (tree nested_example))
   \<and> tree_data (snd (delete_onMutate ''b'' example_cache)) =
        Some (nested_example\<lparr>tree := removeFolder ''b'' (tree nested_example),
                total_folders := max 0 (total_folders nested_example - 1)\<rparr>)
   \<and> ''b'' \<notin> set (folder_ids (removeFolder ''b'' (tree nested_example)))
   \<and> ''a'' \<in> set (folder_ids (removeFolder ''b'' (tree nested_example)))
   \<and> folder_ids (removeFolder ''b'' (tree nested_example)) = [''a'']"
proof -
  have h: "tree_data example_cache = Some nested_example"
    by (simp add: example_cache_def)
  have d: "distinct (folder_ids (tree nested_example))"
    by (simp add: nested_example_def example_folder_def)
  have a: "''a'' \<in> set (folder_ids (tree nested_example)) \<and> ''a'' \<noteq> ''b''
      \<and> \<not> is_descendant_in ''a'' ''b'' (tree nested_example)"
    by (simp add: nested_example_def example_folder_def)
  have f: "filter (\<lambda>h. h \<noteq> ''b'' \<and> \<not> is_descendant_in h ''b'' (tree nested_example))
      (folder_ids (tree nested_example)) = [''a'']"
    by (simp add: nested_example_def example_folder_def)
  from delete_removes_folder [OF h, of "''b''" "''a''"] a d f
  show ?thesis using h by simp
qed

text \<open>
  The counts of the ancestors are not touched: after deleting \<open>f\<close>, with its two
  sources, from below \<open>a\<close>, the record of \<open>a\<close> is what it was, with
  \<^verbatim>\<open>subfolder_count\<close> 1 and \<^verbatim>\<open>total_sources\<close> 2.
\<close>

theorem delete_keeps_ancestor_counts_counterexample:
  "tree_data (snd (delete_onMutate ''f'' delete_example)) =
     Some \<lparr>tree = [FolderNode (example_folder ''a'' 0 1 2) []],
           total_folders = 1, tree_total_sources = Some 2\<rparr>
   \<and> subfolder_count (example_folder ''a'' 0 1 2) = 1
   \<and> total_sources (example_folder ''a'' 0 1 2) = 2"
  by (simp add: delete_onMutate_def Let_def setTreeData_other cancelQueries_other
      delete_tree_updater_def delete_example_def removeFolder_eqs example_folder_def)

section \<open>Adding a folder to the cached tree and lists\<close>

lemma addToParent_Nil: "addToParent p tn [] = []"
  by (simp add: addToParent.simps)

lemma addToParent_Source:
  "addToParent p tn (SourceNode s # rest) = SourceNode s # addToParent p tn rest"
  by (simp add: addToParent.simps [of p tn "SourceNode s # rest"] addToParent.simps [of p tn rest])

lemma addToParent_Folder:
  "addToParent p tn (FolderNode f children # rest) =
     (if Value (id' f) = p
      then FolderNode (f\<lparr>subfolder_count := subfolder_count f + 1\<rparr>) (children @ [tn])
      else FolderNode f (addToParent p tn children)) # addToParent p tn rest"
  by (simp add: addToParent.simps [of p tn "FolderNode f children # rest"]
      addToParent.simps [of p tn rest])

lemmas addToParent_eqs = addToParent_Nil addToParent_Source addToParent_Folder

lemma count_nodes_append: "count_nodes (xs @ ys) = count_nodes xs + count_nodes ys"
  by (induction xs rule: count_nodes.induct) simp_all

lemma addToParent_absent:
  "p \<notin> set (folder_ids nodes) \<Longrightarrow> addToParent (Value p) tn nodes = nodes"
  by (induction nodes rule: folder_ids.induct) (auto simp: addToParent_eqs)

lemma addToParent_count:
  "distinct (folder_ids nodes) \<Longrightarrow> p \<in> set (folder_ids nodes) \<Longrightarrow>
     count_nodes (addToParent (Value p) tn nodes) = count_nodes nodes + count_nodes [tn]"
proof (induction nodes rule: folder_ids.induct)
  case 1
  then show ?case by simp
next
  case (2 s rest)
  then show ?case by (simp add: addToParent_eqs)
next
  case (3 f children rest)
  from "3.prems"(1) have dc: "distinct (folder_ids children)" and dr: "distinct (folder_ids rest)"
    and nf: "id' f \<notin> set (folder_ids children)" "id' f \<notin> set (folder_ids rest)"
    and disj: "set (folder_ids children) \<inter> set (folder_ids rest) = {}"
    by auto
  show ?case
  proof (cases "id' f = p")
    case True
    with nf have "addToParent (Value p) tn rest = rest" by (simp add: addToParent_absent)
    with True show ?thesis by (simp add: addToParent_eqs count_nodes_append)
  next
    case False
    show ?thesis
    proof (cases "p \<in> set (folder_ids children)")
      case True
      with disj have "p \<notin> set (folder_ids rest)" by auto
      then have "addToParent (Value p) tn rest = rest" by (rule addToParent_absent)
      with False "3.IH"(1) [OF dc True] show ?thesis by (simp add: addToParent_eqs)
    next
      case nc: False
      with False "3.prems"(2) have "p \<in> set (folder_ids rest)" by simp
      from "3.IH"(2) [OF dr this] addToParent_absent [OF nc, of tn] False
      show ?thesis by (simp add: addToParent_eqs)
    qed
  qed
qed

lemma search_None_iff: "search p nodes = None \<longleftrightarrow> p \<notin> set (folder_ids nodes)"
  by (induction nodes rule: folder_ids.induct) (auto split: option.splits)

lemma children_of_None_iff: "children_of p nodes = None \<longleftrightarrow> p \<notin> set (folder_ids nodes)"
  by (induction nodes rule: folder_ids.induct) (auto split: option.splits)

lemma addToParent_search:
  "search p nodes = Some pf \<Longrightarrow>
     search p (addToParent (Value p) tn nodes) =
       Some (pf\<lparr>subfolder_count := subfolder_count pf + 1\<rparr>)"
proof (induction nodes rule: folder_ids.induct)
  case 1
  then show ?case by simp
next
  case (2 s rest)
  then show ?case by (simp add: addToParent_eqs)
next
  case (3 f children rest)
  show ?case
  proof (cases "id' f = p")
    case True
    with "3.prems" show ?thesis by (simp add: addToParent_eqs)
  next
    case False
    show ?thesis
    proof (cases "search p children")
      case None
      then have "p \<notin> set (folder_ids children)" by (simp add: search_None_iff)
      then have "addToParent (Value p) tn children = children" by (rule addToParent_absent)
      moreover from None False "3.prems" have "search p rest = Some pf" by simp
      ultimately show ?thesis
        using False None "3.IH"(2) by (simp add: addToParent_eqs)
    next
      case (Some r)
      with False "3.prems" have "r = pf" by simp
      with Some "3.IH"(1) False show ?thesis by (simp add: addToParent_eqs)
    qed
  qed
qed

lemma addToParent_children:
  "children_of p nodes = Some cs \<Longrightarrow>
     children_of p (addToParent (Value p) tn nodes) = Some (cs @ [tn])"
proof (induction nodes rule: folder_ids.induct)
  case 1
  then show ?case by simp
next
  case (2 s rest)
  then show ?case by (simp add: addToParent_eqs)
next
  case (3 f children rest)
  show ?case
  proof (cases "id' f = p")
    case True
    with "3.prems" show ?thesis by (simp add: addToParent_eqs)
  next
    case False
    show ?thesis
    proof (cases "children_of p children")
      case None
      then have "p \<notin> set (folder_ids children)" by (simp add: children_of_None_iff)
      then have "addToParent (Value p) tn children = children" by (rule addToParent_absent)
      moreover from None False "3.prems" have "children_of p rest = Some cs" by simp
      ultimately show ?thesis
        using False None "3.IH"(2) by (simp add: addToParent_eqs)
    next
      case (Some r)
      with False "3.prems" have "r = cs" by simp
      with Some "3.IH"(1) False show ?thesis by (simp add: addToParent_eqs)
    qed
  qed
qed

lemma create_tree_data:
  "tree_data qc = Some old \<Longrightarrow>
     tree_data (snd (create_onMutate env d qc)) =
       create_tree_updater d (optimisticFolder env d) (Some old)"
  by (simp add: create_onMutate_def Let_def fold_lists_other setTreeData_other
      cancelQueries_other create_tree_updater_def)

lemma create_list_keys:
  "map fst (list_data (snd (create_onMutate env d qc))) = map fst (list_data qc)"
proof -
  let ?qc2 = "cancelQueries folderKeys_lists (cancelQueries folderKeys_tree qc)"
  let ?qc3 = "case tree_data qc of None \<Rightarrow> ?qc2
     | Some _ \<Rightarrow> setTreeData (create_tree_updater d (optimisticFolder env d)) ?qc2"
  let ?S = "filter (\<lambda>q. matches_key folderKeys_lists (fst q)) (list_data qc)"
  have l3: "list_data ?qc3 = list_data qc"
    by (simp add: setTreeData_other cancelQueries_other split: option.splits)
  have "set (map fst ?S) \<subseteq> set (map fst (list_data ?qc3))" unfolding l3 by auto
  from fold_lists_keys [OF this] l3
  show ?thesis
    by (simp add: create_onMutate_def Let_def getQueriesData_def cancelQueries_other)
qed

lemma create_list_lookup:
  assumes keys: "distinct (map fst (list_data qc))"
    and entry: "(k, Some l) \<in> set (list_data qc)"
    and under: "matches_key folderKeys_lists k"
  shows "list_lookup (list_data (snd (create_onMutate env d qc))) k =
     Some (if matchesParent k d
           then \<lparr>folders = folders l @ [optimisticFolder env d], total = total l + 1\<rparr>
           else l)"
proof -
  let ?qc2 = "cancelQueries folderKeys_lists (cancelQueries folderKeys_tree qc)"
  let ?qc3 = "case tree_data qc of None \<Rightarrow> ?qc2
     | Some _ \<Rightarrow> setTreeData (create_tree_updater d (optimisticFolder env d)) ?qc2"
  let ?S = "filter (\<lambda>q. matches_key folderKeys_lists (fst q)) (list_data qc)"
  let ?U = "\<lambda>q. create_list_updater d (optimisticFolder env d) (fst q)"
  have l3: "list_data ?qc3 = list_data qc"
    by (simp add: setTreeData_other cancelQueries_other split: option.splits)
  have dS: "distinct (map fst ?S)" using keys by (rule distinct_map_filter)
  from entry under have inS: "(k, Some l) \<in> set ?S" by simp
  from keys entry have old: "list_lookup (list_data qc) k = Some l"
    by (rule list_lookup_entry)
  have o3: "list_lookup (list_data ?qc3) (fst (k, Some l)) = Some l"
    using old l3 by simp
  have "list_lookup (list_data (foldl (\<lambda>qc q. setListData (fst q) (?U q) qc) ?qc3 ?S)) k =
      Some (if matchesParent k d
            then \<lparr>folders = folders l @ [optimisticFolder env d], total = total l + 1\<rparr>
            else l)"
    using fold_lists_lookup [OF dS inS, of ?U ?qc3] unfolding o3
    by (simp add: create_list_updater_def)
  then show ?thesis
    by (simp add: create_onMutate_def Let_def getQueriesData_def cancelQueries_other)
qed

text \<open>
  Claim C4, as the code has it. Let the tree be cached with folder ids that are all
  different, let the cache hold one query per key, and let the \<^verbatim>\<open>parent_id\<close> of the new
  folder be absent or the id of a folder of the cached tree. Then
  \<^verbatim>\<open>useCreateFolder.onMutate\<close> adds exactly one node to the tree: at the end of the roots
  when \<^verbatim>\<open>parent_id\<close> is absent, otherwise at the end of the children of the parent, whose
  \<^verbatim>\<open>subfolder_count\<close> goes up by one. \<^verbatim>\<open>total_folders\<close> goes up by one. No list query is
  added or removed; every cached list under \<^verbatim>\<open>folderKeys.lists()\<close> whose \<^verbatim>\<open>parentId\<close>
  matches gets the new folder appended and its \<^verbatim>\<open>total\<close> raised by one, and every other
  one stays as it is.
\<close>

theorem create_adds_one_node:
  assumes cached: "tree_data qc = Some old"
    and ids: "distinct (folder_ids (tree old))"
    and keys: "distinct (map fst (list_data qc))"
    and parent: "parent_known d (tree old)"
  shows "\<exists>new. tree_data (snd (create_onMutate env d qc)) = Some new
     \<and> total_folders new = total_folders old + 1
     \<and> count_nodes (tree new) = count_nodes (tree old) + 1
     \<and> (\<not> truthy (parent_id d) \<longrightarrow>
           tree new = tree old @ [FolderNode (optimisticFolder env d) []])
     \<and> (parent_id d = Value p \<and> p \<noteq> [] \<longrightarrow>
           children_of p (tree new) =
             map_option (\<lambda>cs. cs @ [FolderNode (optimisticFolder env d) []])
               (children_of p (tree old))
         \<and> children_of p (tree old) \<noteq> None
         \<and> search p (tree new) =
             map_option (\<lambda>pf. pf\<lparr>subfolder_count := subfolder_count pf + 1\<rparr>)
               (search p (tree old)))
     \<and> map fst (list_data (snd (create_onMutate env d qc))) = map fst (list_data qc)
     \<and> ((k, Some l) \<in> set (list_data qc) \<and> matches_key folderKeys_lists k \<longrightarrow>
           list_lookup (list_data (snd (create_onMutate env d qc))) k =
             Some (if matchesParent k d
                   then \<lparr>folders = folders l @ [optimisticFolder env d], total = total l + 1\<rparr>
                   else l))"
proof -
  let ?node = "FolderNode (optimisticFolder env d) []"
  let ?qc' = "snd (create_onMutate env d qc)"
  have lists: "map fst (list_data ?qc') = map fst (list_data qc)"
    by (rule create_list_keys)
  have lookup: "(k, Some l) \<in> set (list_data qc) \<and> matches_key folderKeys_lists k \<longrightarrow>
      list_lookup (list_data ?qc') k =
        Some (if matchesParent k d
              then \<lparr>folders = folders l @ [optimisticFolder env d], total = total l + 1\<rparr>
              else l)"
    using create_list_lookup [OF keys] by blast
  show ?thesis
  proof (cases "truthy (parent_id d)")
    case False
    let ?new = "old\<lparr>tree := tree old @ [?node], total_folders := total_folders old + 1\<rparr>"
    from False cached have "tree_data ?qc' = Some ?new"
      by (simp add: create_tree_data create_tree_updater_def)
    moreover have "count_nodes (tree ?new) = count_nodes (tree old) + 1"
      by (simp add: count_nodes_append)
    moreover have "parent_id d = Value p \<and> p \<noteq> [] \<longrightarrow>
           children_of p (tree ?new) = map_option (\<lambda>cs. cs @ [?node]) (children_of p (tree old))
         \<and> children_of p (tree old) \<noteq> None
         \<and> search p (tree ?new) =
             map_option (\<lambda>pf. pf\<lparr>subfolder_count := subfolder_count pf + 1\<rparr>)
               (search p (tree old))"
      using False by auto
    moreover have "total_folders ?new = total_folders old + 1"
      and "\<not> truthy (parent_id d) \<longrightarrow> tree ?new = tree old @ [?node]"
      by simp_all
    ultimately show ?thesis using lists lookup by blast
  next
    case True
    then obtain q where q: "parent_id d = Value q" "q \<noteq> []"
      by (cases "parent_id d") auto
    with parent have qin: "q \<in> set (folder_ids (tree old))"
      by (simp add: parent_known_def)
    let ?new = "old\<lparr>tree := addToParent (Value q) ?node (tree old),
                     total_folders := total_folders old + 1\<rparr>"
    from True cached q have t: "tree_data ?qc' = Some ?new"
      by (simp add: create_tree_data create_tree_updater_def)
    have c: "count_nodes (tree ?new) = count_nodes (tree old) + 1"
      using addToParent_count [OF ids qin, of ?node] by simp
    from qin obtain cs where cs: "children_of q (tree old) = Some cs"
      using children_of_None_iff [of q "tree old"] by (cases "children_of q (tree old)") auto
    from qin obtain pf where pf: "search q (tree old) = Some pf"
      using search_None_iff [of q "tree old"] by (cases "search q (tree old)") auto
    have under: "parent_id d = Value p \<and> p \<noteq> [] \<longrightarrow>
           children_of p (tree ?new) = map_option (\<lambda>cs. cs @ [?node]) (children_of p (tree old))
         \<and> children_of p (tree old) \<noteq> None
         \<and> search p (tree ?new) =
             map_option (\<lambda>pf. pf\<lparr>subfolder_count := subfolder_count pf + 1\<rparr>)
               (search p (tree old))"
      using q cs pf addToParent_children [OF cs, of ?node] addToParent_search [OF pf, of ?node]
      by auto
    have "total_folders ?new = total_folders old + 1"
      and "\<not> truthy (parent_id d) \<longrightarrow> tree ?new = tree old @ [?node]"
      using True by simp_all
    with t c under lists lookup show ?thesis by blast
  qed
qed

text \<open>Creating a folder below \<open>b\<close> in the example cache: the tree has a fourth node.\<close>

theorem create_adds_one_node_witness:
  "tree_data example_cache = Some nested_example
   \<and> distinct (folder_ids (tree nested_example))
   \<and> distinct (map fst (list_data example_cache))
   \<and> parent_known (example_create (Value ''b'')) (tree nested_example)
   \<and> count_nodes (tree nested_example) = 3
   \<and> count_nodes (tree (the (tree_data
         (snd (create_onMutate example_env (example_create (Value ''b'')) example_cache))))) = 4
   \<and> total_folders (the (tree_data
         (snd (create_onMutate example_env (example_create (Value ''b'')) example_cache)))) = 4"
proof -
  have h1: "tree_data example_cache = Some nested_example"
    by (simp add: example_cache_def)
  have h2: "distinct (folder_ids (tree nested_example))"
    by (simp add: nested_example_def example_folder_def)
  have h3: "distinct (map fst (list_data example_cache))"
    by (simp add: example_cache_def folderKeys_list_def)
  have h4: "parent_known (example_create (Value ''b'')) (tree nested_example)"
    by (simp add: parent_known_def example_create_def nested_example_def example_folder_def)
  have n: "count_nodes (tree nested_example) = 3" "total_folders nested_example = 3"
    by (simp_all add: nested_example_def)
  from create_adds_one_node [OF h1 h2 h3 h4, of example_env]
  obtain new where
    "tree_data (snd (create_onMutate example_env (example_create (Value ''b'')) example_cache))
       = Some new"
    "total_folders new = total_folders nested_example + 1"
    "count_nodes (tree new) = count_nodes (tree nested_example) + 1"
    by blast
  with h1 h2 h3 h4 n show ?thesis by simp
qed

text \<open>
  When the parent is not in the cached tree, no node is added, and \<^verbatim>\<open>total_folders\<close> is
  raised all the same: creating a folder below \<open>zz\<close> leaves the tree \<open>a > b > c\<close> as
  it is.
\<close>

theorem create_unknown_parent_counterexample:
  "distinct (folder_ids (tree nested_example))
   \<and> tree_data (snd (create_onMutate example_env (example_create (Value ''zz'')) example_cache))
       = Some \<lparr>tree = tree nested_example, total_folders = 4, tree_total_sources = None\<rparr>"
proof -
  have "''zz'' \<notin> set (folder_ids (tree nested_example))"
    by (simp add: nested_example_def example_folder_def)
  then have "addToParent (Value ''zz'') tn (tree nested_example) = tree nested_example" for tn
    by (rule addToParent_absent)
  moreover have "tree_data example_cache = Some nested_example"
    by (simp add: example_cache_def)
  moreover have "distinct (folder_ids (tree nested_example))"
    by (simp add: nested_example_def example_folder_def)
  ultimately show ?thesis
    by (simp add: create_tree_data create_tree_updater_def example_create_def)
      (simp add: nested_example_def)
qed

end
